theory Spec2Isabelle
  imports Main "HOL-Library.List_Lexorder"
begin

section \<open>Python values\<close>

text \<open>
  A Python \<open>str\<close> is a sequence of Unicode code points, so it is modelled as a list of
  natural numbers, one per code point.  \<open>ustr\<close> turns an ASCII literal into such a list.
  With \<open>List_Lexorder\<close> the order on \<open>pystr\<close> is the lexicographic order by code point,
  which is how Python compares strings.
\<close>

type_synonym pystr = "nat list"

definition ustr :: "string \<Rightarrow> pystr" where
  "ustr s = map of_char s"

text \<open>The exceptions that the modelled code can raise.\<close>

datatype exn =
    FileNotFoundError
  | JSONDecodeError
  | KeyError
  | TypeError
  | AttributeError
  | ValueError
  | IndexError
  | OSError
  | UnicodeEncodeError
  | RecursionError
  | NetworkError pystr
  | Unmodelled

text \<open>
  The values that \<open>json.load\<close> and \<open>response.json()\<close> produce.  \<open>JNull\<close> is Python's
  \<open>None\<close>.  A \<open>dict\<close> keeps its keys in insertion order and holds each key once, so it is
  an association list (with distinct keys for every value Python can build).  Python
  floats are kept abstract: \<open>'f\<close> is the type of float values, and the functions that
  print and read them are parameters of the encoder and the decoder.
\<close>

datatype 'f json =
    JNull
  | JBool bool
  | JInt int
  | JFloat 'f
  | JStr pystr
  | JArr "'f json list"
  | JObj "(pystr \<times> 'f json) list"

section \<open>String substitution: \<open>str.replace\<close>\<close>

text \<open>
  \<open>s.replace(old, new)\<close> replaces every occurrence of \<open>old\<close>, scanning from the left and
  continuing after each replaced occurrence.  \<open>replace_from\<close> is that scan for a non-empty
  \<open>old\<close>; for the empty \<open>old\<close> Python puts \<open>new\<close> before every character and at the end.
\<close>

fun replace_from :: "pystr \<Rightarrow> pystr \<Rightarrow> pystr \<Rightarrow> pystr" where
  "replace_from old new [] = []"
| "replace_from old new (c # cs) =
     (if take (length old) (c # cs) = old
      then new @ replace_from old new (drop (length old - 1) cs)
      else c # replace_from old new cs)"

definition str_replace :: "pystr \<Rightarrow> pystr \<Rightarrow> pystr \<Rightarrow> pystr" where
  "str_replace s old new =
     (if old = [] then new @ concat (map (\<lambda>c. c # new) s) else replace_from old new s)"

text \<open>\<open>old in s\<close>: the string \<open>old\<close> occurs in \<open>s\<close>.\<close>

fun occurs_in :: "pystr \<Rightarrow> pystr \<Rightarrow> bool" where
  "occurs_in old [] = (old = [])"
| "occurs_in old (c # cs) = (take (length old) (c # cs) = old \<or> occurs_in old cs)"

section \<open>Subscripting, iteration and the probe URL (\<open>fetchResults\<close>, lines 60 to 67)\<close>

text \<open>\<open>d[k]\<close> for a string key \<open>k\<close>: only a dict accepts it, and a missing key raises.\<close>

definition py_getitem :: "'f json \<Rightarrow> pystr \<Rightarrow> exn + 'f json" where
  "py_getitem d k =
     (case d of
        JObj kvs \<Rightarrow> (case map_of kvs k of None \<Rightarrow> Inl KeyError | Some v \<Rightarrow> Inr v)
      | _ \<Rightarrow> Inl TypeError)"

text \<open>\<open>for x in v\<close>: a list gives its elements, a dict its keys, a string its characters.\<close>

definition py_iter :: "'f json \<Rightarrow> exn + 'f json list" where
  "py_iter v =
     (case v of
        JArr xs \<Rightarrow> Inr xs
      | JObj kvs \<Rightarrow> Inr (map (\<lambda>kv. JStr (fst kv)) kvs)
      | JStr s \<Rightarrow> Inr (map (\<lambda>c. JStr [c]) s)
      | _ \<Rightarrow> Inl TypeError)"

text \<open>\<open>site["uri_check"].replace("{account}", username)\<close>.\<close>

definition site_url :: "'f json \<Rightarrow> pystr \<Rightarrow> exn + pystr" where
  "site_url site username =
     (case py_getitem site (ustr ''uri_check'') of
        Inl e \<Rightarrow> Inl e
      | Inr (JStr t) \<Rightarrow> Inr (str_replace t (ustr ''{account}'') username)
      | Inr _ \<Rightarrow> Inl AttributeError)"

section \<open>The HTTP probe client (\<open>doSyncRequest\<close>, \<open>doAsyncRequest\<close>)\<close>

text \<open>
  A response object comes from the HTTP library.  What its \<open>json()\<close> method does (return
  the decoded body, or raise because the body is not JSON) is a property of the response.
\<close>

record 'f response =
  status_code :: nat
  content :: pystr
  json_method :: "exn + 'f json"

text \<open>
  The network is the environment: \<open>net k method url\<close> is the outcome of the \<open>k\<close>-th
  request of a run, either an exception of the HTTP library or a response.
\<close>

type_synonym 'f network = "nat \<Rightarrow> pystr \<Rightarrow> pystr \<Rightarrow> exn + 'f response"

definition doSyncRequest ::
  "'f network \<Rightarrow> nat \<Rightarrow> pystr \<Rightarrow> pystr \<Rightarrow> exn + ('f response \<times> 'f json)" where
  "doSyncRequest net k method url =
     (case net k method url of
        Inl e \<Rightarrow> Inl e
      | Inr response \<Rightarrow>
          Inr (response, case json_method response of Inl _ \<Rightarrow> JNull | Inr parsedData \<Rightarrow> parsedData))"

definition doAsyncRequest ::
  "'f network \<Rightarrow> nat \<Rightarrow> pystr \<Rightarrow> pystr \<Rightarrow> exn + ('f response \<times> 'f json)" where
  "doAsyncRequest net k method url =
     (case net k method url of
        Inl e \<Rightarrow> Inl e
      | Inr response \<Rightarrow>
          Inr (response, case json_method response of Inl _ \<Rightarrow> JNull | Inr parsedData \<Rightarrow> parsedData))"

section \<open>Profile links (\<open>PlatformURLManager.get_profile_url\<close>)\<close>

text \<open>
  \<open>template.format(username)\<close> with one positional argument.  The model covers literal
  text, the doubled braces \<open>{{\<close> and \<open>}}\<close>, and replacement fields whose name is empty
  (automatic numbering), a decimal index, or a keyword.  A field with an attribute, an
  index, a conversion or a format specification is outside the model, which answers
  \<open>Unmodelled\<close> there.  Code point 123 is the opening brace, 125 the closing brace.
\<close>

datatype numbering = Unset | Auto | Manual

definition is_digit :: "nat \<Rightarrow> bool" where
  "is_digit c = (48 \<le> c \<and> c \<le> 57)"

definition is_name_char :: "nat \<Rightarrow> bool" where
  "is_name_char c =
     (is_digit c \<or> (65 \<le> c \<and> c \<le> 90) \<or> (97 \<le> c \<and> c \<le> 122) \<or> c = 95)"

definition digits_value :: "pystr \<Rightarrow> nat" where
  "digits_value ds = foldl (\<lambda>n d. 10 * n + (d - 48)) 0 ds"

text \<open>
  One replacement field.  The only positional argument has index 0, so a second
  automatic field or an index above 0 raises \<open>IndexError\<close>; switching between automatic
  and manual numbering raises \<open>ValueError\<close>; there are no keyword arguments, so a
  keyword raises \<open>KeyError\<close>.
\<close>

definition format_field :: "numbering \<Rightarrow> pystr \<Rightarrow> pystr \<Rightarrow> exn + (numbering \<times> pystr)" where
  "format_field st arg name =
     (if name = [] then
        (case st of
           Manual \<Rightarrow> Inl ValueError
         | Auto \<Rightarrow> Inl IndexError
         | Unset \<Rightarrow> Inr (Auto, arg))
      else if list_all is_digit name then
        (if st = Auto then Inl ValueError
         else if 2 ^ 63 \<le> digits_value name then Inl ValueError
         else if digits_value name = 0 then Inr (Manual, arg)
         else Inl IndexError)
      else if list_all is_name_char name then Inl KeyError
      else Inl Unmodelled)"

function format_from :: "numbering \<Rightarrow> pystr \<Rightarrow> pystr \<Rightarrow> exn + pystr" where
  "format_from st arg [] = Inr []"
| "format_from st arg (c # cs) =
     (if c = 123 then
        (case cs of
           [] \<Rightarrow> Inl ValueError
         | d # ds \<Rightarrow>
             if d = 123 then map_sum id ((#) 123) (format_from st arg ds)
             else if 125 \<notin> set cs then Inl ValueError
             else
               (case format_field st arg (takeWhile (\<lambda>x. x \<noteq> 125) cs) of
                  Inl e \<Rightarrow> Inl e
                | Inr (st', piece) \<Rightarrow>
                    map_sum id ((@) piece)
                      (format_from st' arg (tl (dropWhile (\<lambda>x. x \<noteq> 125) cs)))))
      else if c = 125 then
        (case cs of
           [] \<Rightarrow> Inl ValueError
         | d # ds \<Rightarrow>
             if d = 125 then map_sum id ((#) 125) (format_from st arg ds) else Inl ValueError)
      else map_sum id ((#) c) (format_from st arg cs))"
  by pat_completeness auto
termination
  by (relation "measure (\<lambda>(st, arg, t). length t)")
     (auto simp: less_Suc_eq_le intro!: le_trans [OF diff_le_self] le_SucI length_dropWhile_le)

definition str_format :: "pystr \<Rightarrow> pystr \<Rightarrow> exn + pystr" where
  "str_format template arg = format_from Unset arg template"

text \<open>The truth value of an optional string: \<open>None\<close> and the empty string are false.\<close>

definition truthy :: "pystr option \<Rightarrow> bool" where
  "truthy v = (case v of None \<Rightarrow> False | Some s \<Rightarrow> s \<noteq> [])"

text \<open>
  \<open>platforms\<close> is the manager's dict from platform name to URL template, and
  \<open>map_of platforms name\<close> is \<open>self.platforms.get(name)\<close>.
\<close>

definition get_profile_url ::
  "(pystr \<times> pystr) list \<Rightarrow> pystr \<Rightarrow> pystr \<Rightarrow> pystr option \<Rightarrow> exn + pystr" where
  "get_profile_url platforms platform_name username fallback_url =
     (let url_template = map_of platforms platform_name in
      if truthy url_template then str_format (the url_template) username
      else if truthy fallback_url then Inr (the fallback_url)
      else Inr (ustr ''Unknown platform: '' @ platform_name))"

definition brace_free :: "pystr \<Rightarrow> bool" where
  "brace_free s = (123 \<notin> set s \<and> 125 \<notin> set s)"

section \<open>The JSON encoder (\<open>json.dumps\<close>, \<open>json.dump\<close>)\<close>

text \<open>
  The encoder of Python's \<open>json\<close> module, as far as the program uses it.  A string is
  written by \<open>encode_basestring\<close> (\<open>ensure_ascii=False\<close>: only the quote, the backslash and
  the control characters are escaped) or by \<open>encode_basestring_ascii\<close> (the default: every
  code point outside the printable ASCII range is escaped too, above \<open>0xFFFF\<close> as a
  surrogate pair).  Code point 34 is the double quote and 92 the backslash.
\<close>

definition hexdigit :: "nat \<Rightarrow> nat" where
  "hexdigit d = (if d < 10 then 48 + d else 87 + d)"

definition hex4 :: "nat \<Rightarrow> pystr" where
  "hex4 n = [hexdigit (n div 4096 mod 16), hexdigit (n div 256 mod 16),
             hexdigit (n div 16 mod 16), hexdigit (n mod 16)]"

definition escape_dct :: "nat \<Rightarrow> pystr" where
  "escape_dct c =
     (if c = 92 then [92, 92]
      else if c = 34 then [92, 34]
      else if c = 8 then 92 # ustr ''b''
      else if c = 12 then 92 # ustr ''f''
      else if c = 10 then 92 # ustr ''n''
      else if c = 13 then 92 # ustr ''r''
      else if c = 9 then 92 # ustr ''t''
      else 92 # ustr ''u'' @ hex4 c)"

definition encode_basestring :: "pystr \<Rightarrow> pystr" where
  "encode_basestring s =
     [34] @ concat (map (\<lambda>c. if c < 32 \<or> c = 34 \<or> c = 92 then escape_dct c else [c]) s) @ [34]"

definition escape_ascii :: "nat \<Rightarrow> pystr" where
  "escape_ascii c =
     (if c < 32 \<or> c = 34 \<or> c = 92 then escape_dct c
      else if c < 65536 then 92 # ustr ''u'' @ hex4 c
      else 92 # ustr ''u'' @ hex4 (55296 + (c - 65536) div 1024 mod 1024) @
           92 # ustr ''u'' @ hex4 (56320 + (c - 65536) mod 1024))"

definition encode_basestring_ascii :: "pystr \<Rightarrow> pystr" where
  "encode_basestring_ascii s =
     [34] @ concat (map (\<lambda>c. if c = 92 \<or> c = 34 \<or> c < 32 \<or> 126 < c then escape_ascii c else [c]) s) @ [34]"

text \<open>\<open>int.__repr__\<close>: the decimal digits, with a minus sign for a negative number.\<close>

function nat_digits :: "nat \<Rightarrow> pystr" where
  "nat_digits n = (if n < 10 then [48 + n] else nat_digits (n div 10) @ [48 + n mod 10])"
  by pat_completeness auto
termination
  by (relation "measure id") auto

declare nat_digits.simps [simp del]

definition int_repr :: "int \<Rightarrow> pystr" where
  "int_repr i = (if i < 0 then 45 # nat_digits (nat (- i)) else nat_digits (nat i))"

text \<open>
  The settings of an encoder: how strings and floats are written, the indentation
  (\<open>None\<close>, or the number of spaces per level) and whether the items of a dict are sorted
  by key.  With an indentation the item separator is a comma, without one a comma and a
  space; the key separator is a colon and a space.
\<close>

record 'f encoder =
  string_encoder :: "pystr \<Rightarrow> pystr"
  floatstr :: "'f \<Rightarrow> pystr"
  indent :: "nat option"
  sort_keys :: bool

definition item_separator :: "'f encoder \<Rightarrow> pystr" where
  "item_separator E = (if indent E = None then ustr '', '' else ustr '','')"

definition key_separator :: pystr where
  "key_separator = ustr '': ''"

definition newline_indent :: "'f encoder \<Rightarrow> nat \<Rightarrow> pystr" where
  "newline_indent E lvl =
     (case indent E of None \<Rightarrow> [] | Some n \<Rightarrow> 10 # replicate (n * lvl) 32)"

text \<open>The text of a value that is not a list or a dict.\<close>

fun scalar_text :: "'f encoder \<Rightarrow> 'f json \<Rightarrow> pystr option" where
  "scalar_text E (JStr s) = Some (string_encoder E s)"
| "scalar_text E JNull = Some (ustr ''null'')"
| "scalar_text E (JBool b) = Some (if b then ustr ''true'' else ustr ''false'')"
| "scalar_text E (JInt i) = Some (int_repr i)"
| "scalar_text E (JFloat x) = Some (floatstr E x)"
| "scalar_text E (JArr xs) = None"
| "scalar_text E (JObj kvs) = None"

text \<open>
  \<open>iterencode\<close> yields the output in chunks, which \<open>json.dump\<close> writes one by one and
  \<open>json.dumps\<close> joins.  In a list, the text before an item (the opening bracket or the
  separator) is put in front of the item when the item is a scalar and is a chunk of its
  own otherwise; \<open>with_bufs\<close> hands that text to every item.  In a dict, the separator,
  the key, the key separator and a scalar value are chunks of their own.
\<close>

fun with_bufs :: "pystr \<Rightarrow> pystr \<Rightarrow> (pystr \<Rightarrow> pystr list) list \<Rightarrow> pystr list" where
  "with_bufs buf sep [] = []"
| "with_bufs buf sep (f # fs) = f buf @ with_bufs sep sep fs"

lemma size_dict_entry:
  "(k, v) \<in> set kvs \<Longrightarrow> size v < Suc (size_list (size_prod f size) kvs)"
  by (induction kvs) auto

function (sequential) iterencode :: "'f encoder \<Rightarrow> nat \<Rightarrow> 'f json \<Rightarrow> pystr list" where
  "iterencode E lvl (JArr xs) =
     (if xs = [] then [ustr ''[]'']
      else
        with_bufs (ustr ''['' @ newline_indent E (lvl + 1)) (item_separator E @ newline_indent E (lvl + 1))
          (map (\<lambda>x buf. case scalar_text E x of
                            Some t \<Rightarrow> [buf @ t]
                          | None \<Rightarrow> buf # iterencode E (lvl + 1) x) xs)
        @ (if indent E = None then [] else [newline_indent E lvl])
        @ [ustr '']''])"
| "iterencode E lvl (JObj kvs) =
     (if kvs = [] then [ustr ''{}'']
      else
        [ustr ''{''] @ (if indent E = None then [] else [newline_indent E (lvl + 1)])
        @ with_bufs [] (item_separator E @ newline_indent E (lvl + 1))
            (map (\<lambda>(k, v) buf. (if buf = [] then [] else [buf]) @ [string_encoder E k, key_separator] @
                     (case scalar_text E v of
                        Some t \<Rightarrow> [t]
                      | None \<Rightarrow> iterencode E (lvl + 1) v))
                 (if sort_keys E then sort_key fst kvs else kvs))
        @ (if indent E = None then [] else [newline_indent E lvl])
        @ [ustr ''}''])"
| "iterencode E lvl v = [the (scalar_text E v)]"
  by pat_completeness auto
termination
  by (relation "measure (\<lambda>(E, lvl, v). size v)")
     (auto simp: size_dict_entry less_Suc_eq_le size_list_estimation' split: if_splits)

definition dumps :: "'f encoder \<Rightarrow> 'f json \<Rightarrow> pystr" where
  "dumps E v = concat (iterencode E 0 v)"


section \<open>The JSON decoder (\<open>json.load\<close>)\<close>

text \<open>
  The decoder of Python's \<open>json\<close> module.  A position in the text is modelled by the
  text that remains from that position on.
\<close>

definition is_ws :: "nat \<Rightarrow> bool" where
  "is_ws c = (c = 32 \<or> c = 9 \<or> c = 10 \<or> c = 13)"

definition skip_ws :: "pystr \<Rightarrow> pystr" where
  "skip_ws s = dropWhile is_ws s"

text \<open>
  \<open>scanstring\<close> reads a string from just after its opening quote: up to the closing
  quote, with the escapes decoded, two \<open>\u\<close> escapes that form a surrogate pair joined
  into one code point, and a raw control character refused.
\<close>

definition hexval :: "nat \<Rightarrow> nat option" where
  "hexval c =
     (if 48 \<le> c \<and> c \<le> 57 then Some (c - 48)
      else if 97 \<le> c \<and> c \<le> 102 then Some (c - 87)
      else if 65 \<le> c \<and> c \<le> 70 then Some (c - 55)
      else None)"

definition decode_uXXXX :: "pystr \<Rightarrow> nat option" where
  "decode_uXXXX s =
     (case s of
        a # b # c # d # _ \<Rightarrow>
          (case (hexval a, hexval b, hexval c, hexval d) of
             (Some w, Some x, Some y, Some z) \<Rightarrow> Some (((w * 16 + x) * 16 + y) * 16 + z)
           | _ \<Rightarrow> None)
      | _ \<Rightarrow> None)"

definition backslash :: "nat \<Rightarrow> nat option" where
  "backslash e =
     (if e = 34 then Some 34
      else if e = 92 then Some 92
      else if e = 47 then Some 47
      else if e = 98 then Some 8
      else if e = 102 then Some 12
      else if e = 110 then Some 10
      else if e = 114 then Some 13
      else if e = 116 then Some 9
      else None)"

definition add_char :: "nat \<Rightarrow> exn + pystr \<times> pystr \<Rightarrow> exn + pystr \<times> pystr" where
  "add_char c r = (case r of Inl e \<Rightarrow> Inl e | Inr (t, rest) \<Rightarrow> Inr (c # t, rest))"

function scanstring :: "pystr \<Rightarrow> exn + pystr \<times> pystr" where
  "scanstring [] = Inl JSONDecodeError"
| "scanstring (c # cs) =
     (if c = 34 then Inr ([], cs)
      else if c = 92 then
        (case cs of
           [] \<Rightarrow> Inl JSONDecodeError
         | esc # es \<Rightarrow>
             if esc \<noteq> 117 then
               (case backslash esc of
                  None \<Rightarrow> Inl JSONDecodeError
                | Some ch \<Rightarrow> add_char ch (scanstring es))
             else
               (case decode_uXXXX es of
                  None \<Rightarrow> Inl JSONDecodeError
                | Some uni \<Rightarrow>
                    if 55296 \<le> uni \<and> uni \<le> 56319 \<and> take 2 (drop 4 es) = [92, 117] then
                      (case decode_uXXXX (drop 6 es) of
                         None \<Rightarrow> Inl JSONDecodeError
                       | Some uni2 \<Rightarrow>
                           if 56320 \<le> uni2 \<and> uni2 \<le> 57343
                           then add_char (65536 + ((uni - 55296) * 1024 + (uni2 - 56320)))
                                  (scanstring (drop 10 es))
                           else add_char uni (scanstring (drop 4 es)))
                    else add_char uni (scanstring (drop 4 es))))
      else if c < 32 then Inl JSONDecodeError
      else add_char c (scanstring cs))"
  by pat_completeness auto
termination
  by (relation "measure length") auto

text \<open>
  Numbers follow the pattern \<open>(-?(?:0|[1-9][0-9]*))(\.[0-9]+)?([eE][-+]?[0-9]+)?\<close>: an
  integer part, then a fraction and an exponent, each taken only if it matches as a
  whole.  A number with a fraction or an exponent is a float, any other an integer.
\<close>

definition match_digits :: "pystr \<Rightarrow> pystr \<times> pystr" where
  "match_digits s = (takeWhile is_digit s, dropWhile is_digit s)"

definition match_frac :: "pystr \<Rightarrow> pystr \<times> pystr" where
  "match_frac s =
     (case s of
        dot # t \<Rightarrow>
          if dot = 46 \<and> fst (match_digits t) \<noteq> []
          then (dot # fst (match_digits t), snd (match_digits t))
          else ([], s)
      | [] \<Rightarrow> ([], s))"

definition match_exp :: "pystr \<Rightarrow> pystr \<times> pystr" where
  "match_exp s =
     (case s of
        e # t \<Rightarrow>
          if e = 101 \<or> e = 69 then
            (let (sign, u) = (case t of
                                x # u \<Rightarrow> if x = 45 \<or> x = 43 then ([x], u) else ([], t)
                              | [] \<Rightarrow> ([], t))
             in if fst (match_digits u) \<noteq> []
                then (e # sign @ fst (match_digits u), snd (match_digits u))
                else ([], s))
          else ([], s)
      | [] \<Rightarrow> ([], s))"

definition match_integer :: "pystr \<Rightarrow> (pystr \<times> pystr) option" where
  "match_integer s =
     (let (sign, t) = (case s of
                         x # u \<Rightarrow> if x = 45 then ([x], u) else ([], s)
                       | [] \<Rightarrow> ([], s))
      in case t of
           [] \<Rightarrow> None
         | d # u \<Rightarrow>
             if d = 48 then Some (sign @ [d], u)
             else if 49 \<le> d \<and> d \<le> 57 then Some (sign @ d # fst (match_digits u), snd (match_digits u))
             else None)"

definition match_number :: "pystr \<Rightarrow> (pystr \<times> pystr \<times> pystr \<times> pystr) option" where
  "match_number s =
     (case match_integer s of
        None \<Rightarrow> None
      | Some (integer, r) \<Rightarrow>
          (let (frac, r1) = match_frac r; (exp, r2) = match_exp r1
           in Some (integer, frac, exp, r2)))"

definition parse_int :: "pystr \<Rightarrow> int" where
  "parse_int s =
     (case s of
        x # ds \<Rightarrow> if x = 45 then - int (digits_value ds) else int (digits_value s)
      | [] \<Rightarrow> 0)"

text \<open>
  \<open>dict(pairs)\<close>: a key that comes again replaces the value and keeps its first place.
\<close>

fun dict_set :: "(pystr \<times> 'v) list \<Rightarrow> pystr \<Rightarrow> 'v \<Rightarrow> (pystr \<times> 'v) list" where
  "dict_set [] k v = [(k, v)]"
| "dict_set ((k', v') # d) k v = (if k' = k then (k, v) # d else (k', v') # dict_set d k v)"

definition dict_of_pairs :: "(pystr \<times> 'v) list \<Rightarrow> (pystr \<times> 'v) list" where
  "dict_of_pairs pairs = foldl (\<lambda>d kv. dict_set d (fst kv) (snd kv)) [] pairs"

definition scan_number :: "(pystr \<Rightarrow> 'f) \<Rightarrow> pystr \<Rightarrow> exn + 'f json \<times> pystr" where
  "scan_number parse_float s =
     (case match_number s of
        Some (integer, frac, exp, rest) \<Rightarrow>
          if frac \<noteq> [] \<or> exp \<noteq> [] then Inr (JFloat (parse_float (integer @ frac @ exp)), rest)
          else Inr (JInt (parse_int integer), rest)
      | None \<Rightarrow>
          if take 3 s = ustr ''NaN'' then Inr (JFloat (parse_float (ustr ''NaN'')), drop 3 s)
          else if take 8 s = ustr ''Infinity'' then Inr (JFloat (parse_float (ustr ''Infinity'')), drop 8 s)
          else if take 9 s = ustr ''-Infinity'' then Inr (JFloat (parse_float (ustr ''-Infinity'')), drop 9 s)
          else Inl JSONDecodeError)"

text \<open>
  \<open>scan_once\<close> reads one value; \<open>parse_array\<close> is the loop of \<open>JSONArray\<close>, entered at the
  first item, and \<open>parse_object\<close> the loop of \<open>JSONObject\<close>, entered just after the
  opening quote of the first key.  The three call each other; the first argument after
  the float reader bounds the number of nested calls, and \<open>None\<close> says that the bound
  was reached.
\<close>

fun scan_once :: "(pystr \<Rightarrow> 'f) \<Rightarrow> nat \<Rightarrow> pystr \<Rightarrow> (exn + 'f json \<times> pystr) option"
  and parse_array :: "(pystr \<Rightarrow> 'f) \<Rightarrow> nat \<Rightarrow> pystr \<Rightarrow> (exn + 'f json list \<times> pystr) option"
  and parse_object :: "(pystr \<Rightarrow> 'f) \<Rightarrow> nat \<Rightarrow> pystr \<Rightarrow> (exn + (pystr \<times> 'f json) list \<times> pystr) option"
where
  "scan_once pf 0 s = None"
| "scan_once pf (Suc n) s =
     (case s of
        [] \<Rightarrow> Some (Inl JSONDecodeError)
      | c # cs \<Rightarrow>
          if c = 34 then
            (case scanstring cs of
               Inl e \<Rightarrow> Some (Inl e)
             | Inr (t, rest) \<Rightarrow> Some (Inr (JStr t, rest)))
          else if c = 123 then
            (case skip_ws cs of
               [] \<Rightarrow> Some (Inl JSONDecodeError)
             | d # ds \<Rightarrow>
                 if d = 125 then Some (Inr (JObj [], ds))
                 else if d = 34 then
                   (case parse_object pf n ds of
                      None \<Rightarrow> None
                    | Some (Inl e) \<Rightarrow> Some (Inl e)
                    | Some (Inr (pairs, rest)) \<Rightarrow> Some (Inr (JObj (dict_of_pairs pairs), rest)))
                 else Some (Inl JSONDecodeError))
          else if c = 91 then
            (case skip_ws cs of
               [] \<Rightarrow> Some (Inl JSONDecodeError)
             | d # ds \<Rightarrow>
                 if d = 93 then Some (Inr (JArr [], ds))
                 else
                   (case parse_array pf n (d # ds) of
                      None \<Rightarrow> None
                    | Some (Inl e) \<Rightarrow> Some (Inl e)
                    | Some (Inr (values, rest)) \<Rightarrow> Some (Inr (JArr values, rest))))
          else if take 4 s = ustr ''null'' then Some (Inr (JNull, drop 4 s))
          else if take 4 s = ustr ''true'' then Some (Inr (JBool True, drop 4 s))
          else if take 5 s = ustr ''false'' then Some (Inr (JBool False, drop 5 s))
          else Some (scan_number pf s))"
| "parse_array pf 0 s = None"
| "parse_array pf (Suc n) s =
     (case scan_once pf n s of
        None \<Rightarrow> None
      | Some (Inl e) \<Rightarrow> Some (Inl e)
      | Some (Inr (v, r)) \<Rightarrow>
          (case skip_ws r of
             [] \<Rightarrow> Some (Inl JSONDecodeError)
           | d # ds \<Rightarrow>
               if d = 93 then Some (Inr ([v], ds))
               else if d = 44 then
                 (case parse_array pf n (skip_ws ds) of
                    None \<Rightarrow> None
                  | Some (Inl e) \<Rightarrow> Some (Inl e)
                  | Some (Inr (vs, rest)) \<Rightarrow> Some (Inr (v # vs, rest)))
               else Some (Inl JSONDecodeError)))"
| "parse_object pf 0 s = None"
| "parse_object pf (Suc n) s =
     (case scanstring s of
        Inl e \<Rightarrow> Some (Inl e)
      | Inr (key, r1) \<Rightarrow>
          (case skip_ws r1 of
             [] \<Rightarrow> Some (Inl JSONDecodeError)
           | c # r2 \<Rightarrow>
               if c \<noteq> 58 then Some (Inl JSONDecodeError)
               else
                 (case scan_once pf n (skip_ws r2) of
                    None \<Rightarrow> None
                  | Some (Inl e) \<Rightarrow> Some (Inl e)
                  | Some (Inr (v, r3)) \<Rightarrow>
                      (case skip_ws r3 of
                         [] \<Rightarrow> Some (Inl JSONDecodeError)
                       | d # r4 \<Rightarrow>
                           if d = 125 then Some (Inr ([(key, v)], r4))
                           else if d = 44 then
                             (case skip_ws r4 of
                                [] \<Rightarrow> Some (Inl JSONDecodeError)
                              | q # r5 \<Rightarrow>
                                  if q = 34 then
                                    (case parse_object pf n r5 of
                                       None \<Rightarrow> None
                                     | Some (Inl e) \<Rightarrow> Some (Inl e)
                                     | Some (Inr (pairs, rest)) \<Rightarrow> Some (Inr ((key, v) # pairs, rest)))
                                  else Some (Inl JSONDecodeError))
                           else Some (Inl JSONDecodeError)))))"

text \<open>
  \<open>json.loads\<close>: a text that starts with a byte order mark is refused; white space may
  stand before and after the value and nothing else may follow it.  The bound on the
  nested calls is twice the length of the text plus one, which is always enough (lemmas
  \<open>scan_once_enough\<close> and \<open>loads_total\<close> below), so the model never answers
  \<open>RecursionError\<close>; the recursion limit of the interpreter itself is not modelled.
\<close>

definition loads :: "(pystr \<Rightarrow> 'f) \<Rightarrow> pystr \<Rightarrow> exn + 'f json" where
  "loads pf s =
     (if take 1 s = [65279] then Inl JSONDecodeError
      else
        (case scan_once pf (2 * length s + 1) (skip_ws s) of
           None \<Rightarrow> Inl RecursionError
         | Some (Inl e) \<Rightarrow> Inl e
         | Some (Inr (obj, rest)) \<Rightarrow>
             if skip_ws rest = [] then Inr obj else Inl JSONDecodeError))"

section \<open>The program and its environment (\<open>blackbirdv2.py\<close>)\<close>

text \<open>
  The library functions that the program takes as given: the MD5 digest of a text, in
  hexadecimal, and the printing and reading of floats.
\<close>

record 'f pylib =
  md5_hexdigest :: "pystr \<Rightarrow> pystr"
  float_repr :: "'f \<Rightarrow> pystr"
  float_parse :: "pystr \<Rightarrow> 'f"

text \<open>
  The part of the world that the program reads and changes: the catalog file named by
  \<open>listFileName\<close> (\<open>None\<close> when there is no such file, else its content as text) and
  the lines printed so far.
\<close>

record world =
  catalog_file :: "pystr option"
  stdout :: "pystr list"

definition print :: "string \<Rightarrow> world \<Rightarrow> world" where
  "print line w = w\<lparr>stdout := stdout w @ [ustr line]\<rparr>"

text \<open>
  Writing to a file opened with \<open>encoding="UTF-8"\<close> raises \<open>UnicodeEncodeError\<close> on a
  surrogate code point (and no other code point of a Python string).  \<open>json.dump\<close> writes
  chunk by chunk, so the chunks before the offending one reach the file: \<open>write_chunks\<close>
  gives the text written and whether every chunk was written.
\<close>

definition encodable :: "nat \<Rightarrow> bool" where
  "encodable c = (c < 55296 \<or> (57343 < c \<and> c < 1114112))"

fun write_chunks :: "pystr list \<Rightarrow> pystr \<times> bool" where
  "write_chunks [] = ([], True)"
| "write_chunks (chunk # chunks) =
     (if list_all encodable chunk
      then (chunk @ fst (write_chunks chunks), snd (write_chunks chunks))
      else ([], False))"

text \<open>
  \<open>open(listFileName, "w")\<close> followed by \<open>json.dump\<close>.  The operating system may refuse
  the open, or stop the write after some code points (a full disk, a crash); that is the
  fault.  Opening for writing truncates the file, so from then on the old content is gone
  and the file holds what has been written.
\<close>

datatype fault = No_fault | Open_fails | Write_fails nat

definition dump_to_file :: "fault \<Rightarrow> pystr list \<Rightarrow> world \<Rightarrow> exn option \<times> world" where
  "dump_to_file fault chunks w =
     (case fault of
        Open_fails \<Rightarrow> (Some OSError, w)
      | Write_fails n \<Rightarrow>
          if n < length (fst (write_chunks chunks))
          then (Some OSError, w\<lparr>catalog_file := Some (take n (fst (write_chunks chunks)))\<rparr>)
          else (if snd (write_chunks chunks) then None else Some UnicodeEncodeError,
                w\<lparr>catalog_file := Some (fst (write_chunks chunks))\<rparr>)
      | No_fault \<Rightarrow>
          (if snd (write_chunks chunks) then None else Some UnicodeEncodeError,
           w\<lparr>catalog_file := Some (fst (write_chunks chunks))\<rparr>))"

text \<open>\<open>readList\<close>: open the catalog file for reading and decode it.\<close>

definition readList :: "'f pylib \<Rightarrow> world \<Rightarrow> exn + 'f json" where
  "readList L w =
     (case catalog_file w of
        None \<Rightarrow> Inl FileNotFoundError
      | Some f \<Rightarrow> loads (float_parse L) f)"

text \<open>
  \<open>downloadList\<close>: fetch the list, then write the parsed value with
  \<open>json.dump(parsedData, f, indent=4, ensure_ascii=False)\<close>.  \<open>k\<close> is the number of the
  request within the run.  When the request raises, the file is not opened.
\<close>

definition dump_encoder :: "'f pylib \<Rightarrow> 'f encoder" where
  "dump_encoder L =
     \<lparr>string_encoder = encode_basestring, floatstr = float_repr L, indent = Some 4, sort_keys = False\<rparr>"

definition downloadList ::
  "'f pylib \<Rightarrow> pystr \<Rightarrow> 'f network \<Rightarrow> nat \<Rightarrow> fault \<Rightarrow> world \<Rightarrow> exn option \<times> world" where
  "downloadList L listURL net k fault w =
     (case doSyncRequest net k (ustr ''GET'') listURL of
        Inl e \<Rightarrow> (Some e, w)
      | Inr (response, parsedData) \<Rightarrow>
          dump_to_file fault (iterencode (dump_encoder L) 0 parsedData) w)"

text \<open>\<open>hashJSON\<close>: the MD5 digest of \<open>json.dumps(jsonData, sort_keys=True)\<close>.\<close>

definition hashJSON :: "'f pylib \<Rightarrow> 'f json \<Rightarrow> pystr" where
  "hashJSON L jsonData =
     (let dumpJson =
        dumps \<lparr>string_encoder = encode_basestring_ascii, floatstr = float_repr L,
               indent = None, sort_keys = True\<rparr> jsonData
      in md5_hexdigest L dumpJson)"

text \<open>
  \<open>asyncio.gather(*tasks, return_exceptions=True)\<close>.  Each task has a future; when the
  task settles, its future holds its outcome, a returned value or the exception it
  raised.  \<open>order\<close> lists the tasks in the order in which they settle, which the event
  loop and the network decide.  When every future is done \<open>gather\<close> returns the outcomes
  in the order of the tasks; while a task has not settled it does not return (\<open>None\<close>).
\<close>

definition settle :: "'a list \<Rightarrow> 'a option list \<Rightarrow> nat \<Rightarrow> 'a option list" where
  "settle outcomes futures i =
     (if i < length futures then futures[i := Some (outcomes ! i)] else futures)"

definition gather :: "nat list \<Rightarrow> 'a list \<Rightarrow> 'a list option" where
  "gather order outcomes =
     (let futures = foldl (settle outcomes) (replicate (length outcomes) None) order
      in if None \<in> set futures then None else Some (map the futures))"

text \<open>
  The loop of \<open>fetchResults\<close> that builds the tasks: the URL of each site in turn; the
  first site whose URL cannot be built raises, and no probe is sent.
\<close>

fun task_urls :: "'f json list \<Rightarrow> pystr \<Rightarrow> exn + pystr list" where
  "task_urls [] username = Inr []"
| "task_urls (site # sites) username =
     (case site_url site username of
        Inl e \<Rightarrow> Inl e
      | Inr url \<Rightarrow>
          (case task_urls sites username of
             Inl e \<Rightarrow> Inl e
           | Inr urls \<Rightarrow> Inr (url # urls)))"

text \<open>
  \<open>fetchResults\<close>: the \<open>k\<close>-th task is the probe of the \<open>k\<close>-th site.  The result is \<open>None\<close>
  when \<open>gather\<close> does not return.  The line that each probe prints is left out.
\<close>

definition fetchResults ::
  "'f pylib \<Rightarrow> world \<Rightarrow> 'f network \<Rightarrow> nat list \<Rightarrow> pystr \<Rightarrow>
     (exn + (exn + 'f response \<times> 'f json) list) option" where
  "fetchResults L w net order username =
     (case readList L w of
        Inl e \<Rightarrow> Some (Inl e)
      | Inr data \<Rightarrow>
          (case py_getitem data (ustr ''sites'') of
             Inl e \<Rightarrow> Some (Inl e)
           | Inr sites \<Rightarrow>
               (case py_iter sites of
                  Inl e \<Rightarrow> Some (Inl e)
                | Inr site_list \<Rightarrow>
                    (case task_urls site_list username of
                       Inl e \<Rightarrow> Some (Inl e)
                     | Inr urls \<Rightarrow>
                         (case gather order
                                 (map (\<lambda>(k, url). doAsyncRequest net k (ustr ''GET'') url)
                                    (enumerate 0 urls)) of
                            None \<Rightarrow> None
                          | Some results \<Rightarrow> Some (Inr results))))))"

text \<open>
  \<open>checkUpdates\<close>: the result is the exception that ends the call, if any, and the world
  after it.
\<close>

definition checkUpdates ::
  "'f pylib \<Rightarrow> pystr \<Rightarrow> 'f network \<Rightarrow> fault \<Rightarrow> world \<Rightarrow> exn option \<times> world" where
  "checkUpdates L listURL net fault w =
     (if catalog_file w \<noteq> None then
        (let w1 = print ''[-] Checking for updates...'' w in
         case readList L w1 of
           Inl e \<Rightarrow> (Some e, w1)
         | Inr data \<Rightarrow>
             (let currentListHash = hashJSON L data in
              case doSyncRequest net 0 (ustr ''GET'') listURL of
                Inl e \<Rightarrow> (Some e, w1)
              | Inr (response, data') \<Rightarrow>
                  (let remoteListHash = hashJSON L data' in
                   if currentListHash \<noteq> remoteListHash
                   then downloadList L listURL net 1 fault (print ''[!] Updating...'' w1)
                   else (None, print ''[+] List is up to date'' w1))))
      else downloadList L listURL net 0 fault (print ''[!] Downloading WhatsMyName list'' w))"

text \<open>
  A value can be written to the UTF-8 file when every string in it, key or value, and
  the text of every float in it, is free of surrogate code points.
\<close>

fun encodable_value :: "'f pylib \<Rightarrow> 'f json \<Rightarrow> bool" where
  "encodable_value L (JStr s) = list_all encodable s"
| "encodable_value L (JFloat x) = list_all encodable (float_repr L x)"
| "encodable_value L (JArr xs) = list_all (encodable_value L) xs"
| "encodable_value L (JObj kvs) = list_all (\<lambda>(k, v). list_all encodable k \<and> encodable_value L v) kvs"
| "encodable_value L v = True"

definition encodable_chunks :: "pystr list \<Rightarrow> bool" where
  "encodable_chunks chunks = list_all (list_all encodable) chunks"

text \<open>
  A value that Python can hold: in every dict each key occurs once.
\<close>

fun py_value :: "'f json \<Rightarrow> bool" where
  "py_value (JArr xs) = list_all py_value xs"
| "py_value (JObj kvs) = (distinct (map fst kvs) \<and> list_all (\<lambda>(k, v). py_value v) kvs)"
| "py_value v = True"

text \<open>
  Two values have the same content when they differ at most in the order of the items of
  their dicts, at any depth: lists agree item by item, dicts have the same number of
  items and every key of the first has a value of the same content in the second.
\<close>

fun same_content :: "'f json \<Rightarrow> 'f json \<Rightarrow> bool" where
  "same_content (JArr xs) (JArr ys) = list_all2 same_content xs ys"
| "same_content (JObj kvs) (JObj kvs') =
     (length kvs = length kvs' \<and>
      list_all (\<lambda>(k, v). case map_of kvs' k of None \<Rightarrow> False | Some v' \<Rightarrow> same_content v v') kvs)"
| "same_content v v' = (v = v')"

text \<open>
  A value without floats.  Floats are abstract here, so what reading a float back gives
  cannot be stated; the round trip below is about values without them.
\<close>

fun float_free :: "'f json \<Rightarrow> bool" where
  "float_free (JFloat x) = False"
| "float_free (JArr xs) = list_all float_free xs"
| "float_free (JObj kvs) = list_all (\<lambda>(k, v). float_free v) kvs"
| "float_free v = True"

text \<open>
  Names for parts of the written document: the text of one character of a string, the
  characters that a value can start with, the characters that can follow a number
  without being read as part of it, and the text that \<open>json.dump\<close> writes for a value at
  an indentation level.
\<close>

definition escape_char :: "nat \<Rightarrow> pystr" where
  "escape_char c = (if c < 32 \<or> c = 34 \<or> c = 92 then escape_dct c else [c])"

definition value_start :: "nat \<Rightarrow> bool" where
  "value_start c =
     (c = 34 \<or> c = 123 \<or> c = 91 \<or> c = 110 \<or> c = 116 \<or> c = 102 \<or> c = 45 \<or> is_digit c)"

definition ends_number :: "pystr \<Rightarrow> bool" where
  "ends_number r = (case r of [] \<Rightarrow> True | c # _ \<Rightarrow> \<not> is_digit c \<and> c \<noteq> 46 \<and> c \<noteq> 101 \<and> c \<noteq> 69)"

definition dump_text :: "'f pylib \<Rightarrow> nat \<Rightarrow> 'f json \<Rightarrow> pystr" where
  "dump_text L lvl v = concat (iterencode (dump_encoder L) lvl v)"

text \<open>
  A site definition, as far as the program needs it: a dict whose \<open>uri_check\<close> is a
  string.
\<close>

definition site_definition :: "'f json \<Rightarrow> bool" where
  "site_definition site =
     (case site of
        JObj kvs \<Rightarrow> (case map_of kvs (ustr ''uri_check'') of Some (JStr t) \<Rightarrow> True | _ \<Rightarrow> False)
      | _ \<Rightarrow> False)"

section \<open>Example data\<close>

text \<open>
  A library whose digest is the identity and which has no floats, a catalog file with
  five sites, and two networks: one answers every request, the other fails the request
  of the third probe.
\<close>

definition example_lib :: "unit pylib" where
  "example_lib = \<lparr>md5_hexdigest = id, float_repr = (\<lambda>_. []), float_parse = (\<lambda>_. ())\<rparr>"

definition five_sites :: pystr where
  \<open>five_sites = ustr ''{"sites": [{"name": "A", "uri_check": "https://a.net/{account}"}, {"name": "B", "uri_check": "https://b.net/u/{account}"}, {"name": "C", "uri_check": "https://c.net/{account}"}, {"name": "D", "uri_check": "https://{account}.d.net"}, {"name": "E", "uri_check": "https://e.net/about"}]}''\<close>

definition five_catalog :: "unit json" where
  "five_catalog = JObj [(ustr ''sites'', JArr
     [JObj [(ustr ''name'', JStr (ustr ''A'')), (ustr ''uri_check'', JStr (ustr ''https://a.net/{account}''))],
      JObj [(ustr ''name'', JStr (ustr ''B'')), (ustr ''uri_check'', JStr (ustr ''https://b.net/u/{account}''))],
      JObj [(ustr ''name'', JStr (ustr ''C'')), (ustr ''uri_check'', JStr (ustr ''https://c.net/{account}''))],
      JObj [(ustr ''name'', JStr (ustr ''D'')), (ustr ''uri_check'', JStr (ustr ''https://{account}.d.net''))],
      JObj [(ustr ''name'', JStr (ustr ''E'')), (ustr ''uri_check'', JStr (ustr ''https://e.net/about''))]])]"

definition page :: "pystr \<Rightarrow> unit response" where
  "page url = \<lparr>status_code = 200, content = url, json_method = Inl JSONDecodeError\<rparr>"

definition net_up :: "unit network" where
  "net_up k method url = Inr (page url)"

definition net_one_down :: "unit network" where
  "net_one_down k method url = (if k = 2 then Inl (NetworkError url) else Inr (page url))"

text \<open>
  A network on which the remote list is the given value, and one on which every request
  fails.
\<close>

definition remote_page :: "unit json \<Rightarrow> unit response" where
  "remote_page v = \<lparr>status_code = 200, content = [], json_method = Inr v\<rparr>"

definition net_remote :: "unit json \<Rightarrow> unit network" where
  "net_remote v k method url = Inr (remote_page v)"

definition net_down :: "unit network" where
  "net_down k method url = Inl (NetworkError url)"

text \<open>Two catalogs that differ in the order of their keys, at two depths.\<close>

definition reordered_a :: "unit json" where
  "reordered_a = JObj [(ustr ''sites'', JArr [JObj [(ustr ''name'', JStr (ustr ''A'')),
                                                    (ustr ''uri_check'', JStr (ustr ''https://a.net/{account}''))]]),
                       (ustr ''license'', JArr [JInt 1, JNull])]"

definition reordered_b :: "unit json" where
  "reordered_b = JObj [(ustr ''license'', JArr [JInt 1, JNull]),
                       (ustr ''sites'', JArr [JObj [(ustr ''uri_check'', JStr (ustr ''https://a.net/{account}'')),
                                                    (ustr ''name'', JStr (ustr ''A''))]])]"

text \<open>
  A remote list with a lone surrogate code point (D800) in a string, which
  \<open>response.json()\<close> returns for an escaped lone surrogate and UTF-8 cannot encode.
\<close>

definition surrogate_note :: "unit json" where
  "surrogate_note = JObj [(ustr ''sites'', JArr []), (ustr ''note'', JStr [55296])]"

section \<open>Properties of the substitution\<close>

lemma replace_from_absent:
  "\<not> occurs_in old s \<Longrightarrow> replace_from old new s = s"
  by (induction s) auto

text \<open>
  The placeholder starts with its only opening brace, so no occurrence of it can begin
  inside the text before an occurrence and run into that occurrence.
\<close>

lemma account_no_border:
  assumes "take 9 (pre @ ustr ''{account}'' @ post) = ustr ''{account}''" and "pre \<noteq> []"
  shows "take 9 pre = ustr ''{account}''"
proof (cases "length pre < 9")
  case False
  then show ?thesis using assms by simp
next
  case True
  let ?k = "length pre"
  from assms(1) have "(pre @ ustr ''{account}'' @ post) ! ?k = ustr ''{account}'' ! ?k"
    using True by (metis nth_take)
  then have "ustr ''{account}'' ! ?k = 123"
    by (simp add: nth_append ustr_def)
  moreover have "?k \<in> {1..<9}"
    using True assms(2) by (cases pre) auto
  moreover have "\<forall>k\<in>{1..<9}. ustr ''{account}'' ! k \<noteq> 123"
    by (simp add: ustr_def atLeastLessThan_def lessThan_def atLeast_def Ball_def nth_Cons')
  ultimately show ?thesis by blast
qed

lemma replace_from_first:
  "\<not> occurs_in (ustr ''{account}'') pre \<Longrightarrow>
   replace_from (ustr ''{account}'') new (pre @ ustr ''{account}'' @ post) =
     pre @ new @ replace_from (ustr ''{account}'') new post"
proof (induction pre)
  case Nil
  show ?case by (simp add: ustr_def)
next
  case (Cons c cs)
  have len: "length (ustr ''{account}'') = 9"
    by (simp add: ustr_def)
  have "take 9 ((c # cs) @ ustr ''{account}'' @ post) \<noteq> ustr ''{account}''"
    using account_no_border [of "c # cs" post] Cons.prems by (auto simp: len)
  then show ?case using Cons by (simp add: len)
qed

text \<open>
  Claim C6.  The probe URL of a site is its \<open>uri_check\<close> template with the username in
  place of the \<open>{account}\<close> placeholder: a template without the placeholder is used as
  it is, and a template with the placeholder between two texts that do not hold it
  becomes the first text, the username, the second text.
\<close>

theorem probe_url_substitutes_account:
  assumes "map_of kvs (ustr ''uri_check'') = Some (JStr t)"
  shows "(\<not> occurs_in (ustr ''{account}'') t \<longrightarrow> site_url (JObj kvs) username = Inr t) \<and>
         (t = pre @ ustr ''{account}'' @ post \<and> \<not> occurs_in (ustr ''{account}'') pre \<and>
            \<not> occurs_in (ustr ''{account}'') post \<longrightarrow>
          site_url (JObj kvs) username = Inr (pre @ username @ post))"
proof -
  have neq: "ustr ''{account}'' \<noteq> []"
    by (simp add: ustr_def)
  have url: "site_url (JObj kvs) username = Inr (replace_from (ustr ''{account}'') username t)"
    using assms neq by (simp add: site_url_def py_getitem_def str_replace_def)
  show ?thesis
    by (auto simp: url replace_from_absent replace_from_first)
qed

theorem probe_url_substitutes_account_witness:
  "site_url (JObj [(ustr ''name'', JStr (ustr ''Example'')),
                   (ustr ''uri_check'', JStr (ustr ''https://example.com/{account}''))] :: unit json)
     (ustr ''alice'') = Inr (ustr ''https://example.com/alice'') \<and>
   site_url (JObj [(ustr ''uri_check'', JStr (ustr ''https://example.com/about''))] :: unit json)
     (ustr ''alice'') = Inr (ustr ''https://example.com/about'')"
proof -
  have a: "map_of [(ustr ''name'', JStr (ustr ''Example'')),
                   (ustr ''uri_check'', JStr (ustr ''https://example.com/{account}''))]
             (ustr ''uri_check'') = Some (JStr (ustr ''https://example.com/'' @ ustr ''{account}'' @ []) :: unit json)"
    by (simp add: ustr_def)
  have b: "map_of [(ustr ''uri_check'', JStr (ustr ''https://example.com/about''))]
             (ustr ''uri_check'') = Some (JStr (ustr ''https://example.com/about'') :: unit json)"
    by simp
  have c: "\<not> occurs_in (ustr ''{account}'') (ustr ''https://example.com/'')"
       "\<not> occurs_in (ustr ''{account}'') []"
       "\<not> occurs_in (ustr ''{account}'') (ustr ''https://example.com/about'')"
    by (simp_all add: ustr_def)
  show ?thesis
    using probe_url_substitutes_account
        [OF a, where pre = "ustr ''https://example.com/''" and post = "[]" and username = "ustr ''alice''"]
      probe_url_substitutes_account [OF b, where username = "ustr ''alice''"] c
    by (simp add: ustr_def)
qed

section \<open>Properties of the probe client\<close>

text \<open>
  Claim C8.  When the HTTP exchange completes with a response, the probe returns that
  response to its caller whatever the body holds; when decoding the body as JSON fails,
  the failure is swallowed and the parsed component is \<open>None\<close>.
\<close>

theorem probe_swallows_json_failure:
  assumes "net k method url = Inr r"
  shows "(\<exists>p. doSyncRequest net k method url = Inr (r, p)) \<and>
         (\<exists>p. doAsyncRequest net k method url = Inr (r, p)) \<and>
         (json_method r = Inl e \<longrightarrow>
            doSyncRequest net k method url = Inr (r, JNull) \<and>
            doAsyncRequest net k method url = Inr (r, JNull))"
  using assms by (simp add: doSyncRequest_def doAsyncRequest_def)

theorem probe_swallows_json_failure_witness:
  "doSyncRequest
     (\<lambda>k m u. Inr \<lparr>status_code = 200, content = ustr ''<html>'', json_method = Inl JSONDecodeError\<rparr>)
     0 (ustr ''GET'') (ustr ''https://example.com/alice'') =
   Inr (\<lparr>status_code = 200, content = ustr ''<html>'',
          json_method = (Inl JSONDecodeError :: exn + unit json)\<rparr>, JNull)"
  using probe_swallows_json_failure
    [of "\<lambda>k m u. Inr \<lparr>status_code = 200, content = ustr ''<html>'',
                          json_method = (Inl JSONDecodeError :: exn + unit json)\<rparr>"
        0 "ustr ''GET''" "ustr ''https://example.com/alice''"
        "\<lparr>status_code = 200, content = ustr ''<html>'', json_method = Inl JSONDecodeError\<rparr>"
        JSONDecodeError]
  by simp

section \<open>Properties of the profile links\<close>

lemma format_from_plain:
  "brace_free s \<Longrightarrow> format_from st arg s = Inr s"
  by (induction s) (auto simp: brace_free_def)

lemma format_from_placeholder:
  "brace_free pre \<Longrightarrow> brace_free post \<Longrightarrow>
   format_from Unset arg (pre @ ustr ''{}'' @ post) = Inr (pre @ arg @ post)"
proof (induction pre)
  case Nil
  then show ?case
    by (simp add: ustr_def format_field_def format_from_plain)
next
  case (Cons c cs)
  then show ?case
    by (auto simp: brace_free_def)
qed

text \<open>
  Claim C10, as the code has it.  A lookup that gives a non-empty template returns what
  \<open>format\<close> makes of it, which for a template with one \<open>{}\<close> placeholder and no other
  brace is the template with the username in the placeholder's place.  A lookup that
  gives nothing or the empty template falls back: to the fallback URL when one is given
  and is not empty, and otherwise to the text \<open>Unknown platform: \<close> followed by the
  platform name.  The two fallback branches never raise.
\<close>

theorem profile_url_fallback_chain:
  "(map_of platforms name = Some t \<and> t \<noteq> [] \<longrightarrow>
      get_profile_url platforms name username fallback = str_format t username) \<and>
   (map_of platforms name = Some (pre @ ustr ''{}'' @ post) \<and> brace_free pre \<and> brace_free post \<longrightarrow>
      get_profile_url platforms name username fallback = Inr (pre @ username @ post)) \<and>
   (\<not> truthy (map_of platforms name) \<and> fallback = Some f \<and> f \<noteq> [] \<longrightarrow>
      get_profile_url platforms name username fallback = Inr f) \<and>
   (\<not> truthy (map_of platforms name) \<and> \<not> truthy fallback \<longrightarrow>
      get_profile_url platforms name username fallback = Inr (ustr ''Unknown platform: '' @ name))"
proof -
  have "ustr ''{}'' \<noteq> []"
    by (simp add: ustr_def)
  then show ?thesis
    by (auto simp: get_profile_url_def truthy_def str_format_def format_from_placeholder)
qed

theorem profile_url_fallback_chain_witness:
  "get_profile_url [(ustr ''GitHub'', ustr ''https://github.com/{}'')]
     (ustr ''GitHub'') (ustr ''testuser'') None = Inr (ustr ''https://github.com/testuser'') \<and>
   get_profile_url [(ustr ''GitHub'', ustr ''https://github.com/{}'')]
     (ustr ''NonExistentPlatform'') (ustr ''testuser'') (Some (ustr ''https://example.com/testuser'')) =
     Inr (ustr ''https://example.com/testuser'') \<and>
   get_profile_url [(ustr ''GitHub'', ustr ''https://github.com/{}'')]
     (ustr ''NonExistentPlatform'') (ustr ''testuser'') None =
     Inr (ustr ''Unknown platform: NonExistentPlatform'')"
proof -
  let ?ps = "[(ustr ''GitHub'', ustr ''https://github.com/{}'')]"
  have a: "map_of ?ps (ustr ''GitHub'') = Some (ustr ''https://github.com/'' @ ustr ''{}'' @ [])"
    by (simp add: ustr_def)
  have b: "brace_free (ustr ''https://github.com/'')" "brace_free []"
    by (simp_all add: ustr_def brace_free_def)
  have c: "\<not> truthy (map_of ?ps (ustr ''NonExistentPlatform''))"
    by (simp add: ustr_def truthy_def)
  have d: "ustr ''https://example.com/testuser'' \<noteq> []" "\<not> truthy None"
    by (simp_all add: ustr_def truthy_def)
  show ?thesis
    using a b c d
      profile_url_fallback_chain [where platforms = ?ps and name = "ustr ''GitHub''"
        and pre = "ustr ''https://github.com/''" and post = "[]"
        and username = "ustr ''testuser''" and fallback = None]
      profile_url_fallback_chain [where platforms = ?ps and name = "ustr ''NonExistentPlatform''"
        and username = "ustr ''testuser''" and fallback = "Some (ustr ''https://example.com/testuser'')"
        and f = "ustr ''https://example.com/testuser''"]
      profile_url_fallback_chain [where platforms = ?ps and name = "ustr ''NonExistentPlatform''"
        and username = "ustr ''testuser''" and fallback = None]
    by (simp add: ustr_def)
qed

text \<open>
  A platform that maps to the empty template is treated as unknown, and an empty fallback
  URL as not given: the tests on \<open>url_template\<close> and \<open>fallback_url\<close> are truth tests.
\<close>

theorem profile_url_empty_template_counterexample:
  "map_of [(ustr ''X'', [])] (ustr ''X'') = Some [] \<and>
   str_format [] (ustr ''alice'') = Inr [] \<and>
   get_profile_url [(ustr ''X'', [])] (ustr ''X'') (ustr ''alice'') None =
     Inr (ustr ''Unknown platform: X'') \<and>
   get_profile_url [(ustr ''X'', [])] (ustr ''X'') (ustr ''alice'') None \<noteq>
     str_format [] (ustr ''alice'') \<and>
   get_profile_url [] (ustr ''X'') (ustr ''alice'') (Some []) \<noteq> Inr []"
  by (simp add: get_profile_url_def truthy_def str_format_def ustr_def)

section \<open>Properties of the orchestrator (\<open>fetchResults\<close>)\<close>

lemma foldl_settle:
  "length futures = length outcomes \<Longrightarrow>
   length (foldl (settle outcomes) futures order) = length outcomes \<and>
   (\<forall>i<length outcomes.
      foldl (settle outcomes) futures order ! i =
        (if i \<in> set order then Some (outcomes ! i) else futures ! i))"
proof (induction order arbitrary: futures)
  case Nil
  then show ?case by simp
next
  case (Cons j order)
  have len: "length (settle outcomes futures j) = length outcomes"
    using Cons.prems by (simp add: settle_def)
  show ?case
    using Cons.IH [OF len] Cons.prems
    by (auto simp: settle_def nth_list_update)
qed

lemma gather_all_settled:
  assumes "{..<length outcomes} \<subseteq> set order"
  shows "gather order outcomes = Some outcomes"
proof -
  let ?fs = "foldl (settle outcomes) (replicate (length outcomes) None) order"
  have len: "length ?fs = length outcomes"
    and nth: "\<forall>i<length outcomes. ?fs ! i = Some (outcomes ! i)"
    using foldl_settle [of "replicate (length outcomes) None" outcomes order] assms
    by auto
  have "None \<notin> set ?fs"
    using len nth by (metis in_set_conv_nth option.distinct(1))
  moreover have "map the ?fs = outcomes"
    using len nth by (intro nth_equalityI) auto
  ultimately show ?thesis
    by (simp add: gather_def Let_def)
qed

lemma task_urls_sites:
  "task_urls sites username = Inr urls \<Longrightarrow>
   length urls = length sites \<and> (\<forall>i<length sites. site_url (sites ! i) username = Inr (urls ! i))"
proof (induction sites arbitrary: urls)
  case Nil
  then show ?case by simp
next
  case (Cons site sites)
  then show ?case
    by (auto split: sum.splits simp: nth_Cons')
qed

lemma site_definition_url:
  "site_definition site \<Longrightarrow> \<exists>url. site_url site username = Inr url"
  by (auto simp: site_definition_def site_url_def py_getitem_def
           split: json.splits option.splits)

lemma task_urls_defined:
  "list_all site_definition sites \<Longrightarrow> \<exists>urls. task_urls sites username = Inr urls"
proof (induction sites)
  case Nil
  then show ?case by simp
next
  case (Cons site sites)
  then show ?case
    using site_definition_url [of site username] by auto
qed

lemma nth_probes:
  "i < length urls \<Longrightarrow>
   map (\<lambda>(k, url). doAsyncRequest net k m url) (enumerate 0 urls) ! i =
     doAsyncRequest net i m (urls ! i)"
  by (simp add: nth_enumerate_eq)


lemma fetchResults_settled:
  assumes "readList L w = Inr catalog"
    and "py_getitem catalog (ustr ''sites'') = Inr (JArr sites)"
    and "list_all site_definition sites"
    and "{..<length sites} \<subseteq> set order"
  shows "\<exists>urls. length urls = length sites \<and>
           (\<forall>i<length sites. site_url (sites ! i) username = Inr (urls ! i)) \<and>
           fetchResults L w net order username =
             Some (Inr (map (\<lambda>(k, url). doAsyncRequest net k (ustr ''GET'') url) (enumerate 0 urls)))"
proof -
  obtain urls where urls: "task_urls sites username = Inr urls"
    using task_urls_defined [OF assms(3)] by blast
  have len: "length urls = length sites"
    and url: "\<forall>i<length sites. site_url (sites ! i) username = Inr (urls ! i)"
    using task_urls_sites [OF urls] by auto
  let ?probes = "map (\<lambda>(k, url). doAsyncRequest net k (ustr ''GET'') url) (enumerate 0 urls)"
  have "gather order ?probes = Some ?probes"
    using assms(4) len by (intro gather_all_settled) simp
  then have "fetchResults L w net order username = Some (Inr ?probes)"
    using assms(1,2) urls by (simp add: fetchResults_def py_iter_def)
  then show ?thesis
    using len url by blast
qed

text \<open>Rules to run the decoder on a given text.\<close>

lemmas scan_numeral =
  scan_once.simps(2) [of _ "pred_numeral k", folded numeral_eq_Suc]
  parse_array.simps(2) [of _ "pred_numeral k", folded numeral_eq_Suc]
  parse_object.simps(2) [of _ "pred_numeral k", folded numeral_eq_Suc]
  for k

lemmas loads_eval =
  loads_def ustr_def skip_ws_def is_ws_def scan_numeral add_char_def backslash_def
  dict_of_pairs_def scan_number_def match_number_def match_integer_def match_digits_def
  match_frac_def match_exp_def parse_int_def digits_value_def is_digit_def

lemma readList_five_sites:
  "readList example_lib \<lparr>catalog_file = Some five_sites, stdout = []\<rparr> = Inr five_catalog"
  by (simp add: readList_def example_lib_def five_sites_def five_catalog_def loads_eval)

text \<open>
  Claim C1.  When the catalog file holds a catalog whose \<open>sites\<close> is a list of \<open>N\<close> site
  definitions and every probe settles, in whatever order, \<open>fetchResults\<close> returns exactly
  \<open>N\<close> results, and the \<open>i\<close>-th result is the outcome of the probe of the \<open>i\<close>-th site.
\<close>

theorem fetchResults_one_result_per_site:
  assumes "readList L w = Inr catalog"
    and "py_getitem catalog (ustr ''sites'') = Inr (JArr sites)"
    and "list_all site_definition sites"
    and "{..<length sites} \<subseteq> set order"
  shows "\<exists>results. fetchResults L w net order username = Some (Inr results) \<and>
           length results = length sites \<and>
           (\<forall>i<length sites. \<exists>url. site_url (sites ! i) username = Inr url \<and>
              results ! i = doAsyncRequest net i (ustr ''GET'') url)"
proof -
  obtain urls where len: "length urls = length sites"
    and url: "\<forall>i<length sites. site_url (sites ! i) username = Inr (urls ! i)"
    and res: "fetchResults L w net order username =
       Some (Inr (map (\<lambda>(k, url). doAsyncRequest net k (ustr ''GET'') url) (enumerate 0 urls)))"
    using fetchResults_settled [OF assms, of username net] by blast
  show ?thesis
    using len url nth_probes [of _ urls net "ustr ''GET''"] by (auto simp: res)
qed

lemmas probe_eval =
  site_url_def py_getitem_def str_replace_def ustr_def doAsyncRequest_def net_one_down_def
  net_up_def page_def

theorem fetchResults_one_result_per_site_witness:
  "fetchResults example_lib \<lparr>catalog_file = Some five_sites, stdout = []\<rparr> net_one_down
     [3, 0, 4, 2, 1] (ustr ''alice'') =
   Some (Inr [Inr (page (ustr ''https://a.net/alice''), JNull),
              Inr (page (ustr ''https://b.net/u/alice''), JNull),
              Inl (NetworkError (ustr ''https://c.net/alice'')),
              Inr (page (ustr ''https://alice.d.net''), JNull),
              Inr (page (ustr ''https://e.net/about''), JNull)])"
proof -
  let ?sites = "[JObj [(ustr ''name'', JStr (ustr ''A'')), (ustr ''uri_check'', JStr (ustr ''https://a.net/{account}''))],
      JObj [(ustr ''name'', JStr (ustr ''B'')), (ustr ''uri_check'', JStr (ustr ''https://b.net/u/{account}''))],
      JObj [(ustr ''name'', JStr (ustr ''C'')), (ustr ''uri_check'', JStr (ustr ''https://c.net/{account}''))],
      JObj [(ustr ''name'', JStr (ustr ''D'')), (ustr ''uri_check'', JStr (ustr ''https://{account}.d.net''))],
      JObj [(ustr ''name'', JStr (ustr ''E'')), (ustr ''uri_check'', JStr (ustr ''https://e.net/about''))]] :: unit json list"
  have sites: "py_getitem five_catalog (ustr ''sites'') = Inr (JArr ?sites)"
    by (simp add: py_getitem_def five_catalog_def)
  have defs: "list_all site_definition ?sites"
    by (simp add: site_definition_def ustr_def)
  have order: "{..<length ?sites} \<subseteq> set [3, 0, 4, 2, 1]"
    by (auto simp: lessThan_def less_Suc_eq numeral_eq_Suc)
  obtain results where res: "fetchResults example_lib \<lparr>catalog_file = Some five_sites, stdout = []\<rparr>
       net_one_down [3, 0, 4, 2, 1] (ustr ''alice'') = Some (Inr results)"
    and len: "length results = 5"
    and nth: "\<forall>i<5. \<exists>url. site_url (?sites ! i) (ustr ''alice'') = Inr url \<and>
                results ! i = doAsyncRequest net_one_down i (ustr ''GET'') url"
    using fetchResults_one_result_per_site [OF readList_five_sites sites defs order,
        of net_one_down "ustr ''alice''"]
    by auto
  have "results = [results ! 0, results ! 1, results ! 2, results ! 3, results ! 4]"
    using len by (intro nth_equalityI) (auto simp: less_Suc_eq numeral_eq_Suc nth_Cons')
  moreover have "results ! 0 = Inr (page (ustr ''https://a.net/alice''), JNull)"
    using nth [rule_format, of 0] by (simp add: probe_eval)
  moreover have "results ! 1 = Inr (page (ustr ''https://b.net/u/alice''), JNull)"
    using nth [rule_format, of 1] by (simp add: probe_eval)
  moreover have "results ! 2 = Inl (NetworkError (ustr ''https://c.net/alice''))"
    using nth [rule_format, of 2] by (simp add: probe_eval)
  moreover have "results ! 3 = Inr (page (ustr ''https://alice.d.net''), JNull)"
    using nth [rule_format, of 3] by (simp add: probe_eval)
  moreover have "results ! 4 = Inr (page (ustr ''https://e.net/about''), JNull)"
    using nth [rule_format, of 4] by (simp add: probe_eval)
  ultimately show ?thesis
    using res by simp
qed


text \<open>
  Claim C2.  Failures do not spread.  Take two runs over the same catalog, on networks
  that differ only on the probes of a set of failing sites, each with its own completion
  order.  Both runs return a result for every site, the results of the sites outside the
  failing set are the same in both, and the exception of a failed probe is its result.
\<close>

theorem fetchResults_isolates_failures:
  assumes "readList L w = Inr catalog"
    and "py_getitem catalog (ustr ''sites'') = Inr (JArr sites)"
    and "list_all site_definition sites"
    and "{..<length sites} \<subseteq> set order"
    and "{..<length sites} \<subseteq> set order'"
    and "\<forall>i. i \<notin> failing \<longrightarrow> net' i = net i"
  shows "\<exists>rs rs'. fetchResults L w net order username = Some (Inr rs) \<and>
           fetchResults L w net' order' username = Some (Inr rs') \<and>
           length rs = length sites \<and> length rs' = length sites \<and>
           (\<forall>i<length sites. i \<notin> failing \<longrightarrow> rs' ! i = rs ! i) \<and>
           (\<forall>i<length sites. \<forall>url e.
              site_url (sites ! i) username = Inr url \<and> net' i (ustr ''GET'') url = Inl e \<longrightarrow>
              rs' ! i = Inl e)"
proof -
  obtain urls where len: "length urls = length sites"
    and url: "\<forall>i<length sites. site_url (sites ! i) username = Inr (urls ! i)"
    and rs: "fetchResults L w net order username =
       Some (Inr (map (\<lambda>(k, url). doAsyncRequest net k (ustr ''GET'') url) (enumerate 0 urls)))"
    using fetchResults_settled [OF assms(1-4), of username net] by blast
  obtain urls' where len': "length urls' = length sites"
    and url': "\<forall>i<length sites. site_url (sites ! i) username = Inr (urls' ! i)"
    and rs': "fetchResults L w net' order' username =
       Some (Inr (map (\<lambda>(k, url). doAsyncRequest net' k (ustr ''GET'') url) (enumerate 0 urls')))"
    using fetchResults_settled [OF assms(1-3) assms(5), of username net'] by blast
  have same: "urls' = urls"
    using len len' url url' by (intro nth_equalityI) auto
  let ?rs = "map (\<lambda>(k, url). doAsyncRequest net k (ustr ''GET'') url) (enumerate 0 urls)"
  let ?rs' = "map (\<lambda>(k, url). doAsyncRequest net' k (ustr ''GET'') url) (enumerate 0 urls)"
  have "\<forall>i<length sites. i \<notin> failing \<longrightarrow> ?rs' ! i = ?rs ! i"
    using assms(6) len by (simp add: nth_enumerate_eq doAsyncRequest_def)
  moreover have "\<forall>i<length sites. \<forall>url e.
      site_url (sites ! i) username = Inr url \<and> net' i (ustr ''GET'') url = Inl e \<longrightarrow>
      ?rs' ! i = Inl e"
    using url len by (auto simp: nth_enumerate_eq doAsyncRequest_def)
  moreover have "length ?rs = length sites" "length ?rs' = length sites"
    using len by simp_all
  ultimately show ?thesis
    unfolding rs rs' same by blast
qed

theorem fetchResults_isolates_failures_witness:
  "\<exists>rs rs'.
     fetchResults example_lib \<lparr>catalog_file = Some five_sites, stdout = []\<rparr> net_up
       [0, 1, 2, 3, 4] (ustr ''alice'') = Some (Inr rs) \<and>
     fetchResults example_lib \<lparr>catalog_file = Some five_sites, stdout = []\<rparr> net_one_down
       [3, 0, 4, 2, 1] (ustr ''alice'') = Some (Inr rs') \<and>
     length rs = 5 \<and> length rs' = 5 \<and>
     rs' ! 0 = rs ! 0 \<and> rs' ! 1 = rs ! 1 \<and> rs' ! 3 = rs ! 3 \<and> rs' ! 4 = rs ! 4 \<and>
     rs' ! 2 = Inl (NetworkError (ustr ''https://c.net/alice''))"
proof -
  let ?sites = "[JObj [(ustr ''name'', JStr (ustr ''A'')), (ustr ''uri_check'', JStr (ustr ''https://a.net/{account}''))],
      JObj [(ustr ''name'', JStr (ustr ''B'')), (ustr ''uri_check'', JStr (ustr ''https://b.net/u/{account}''))],
      JObj [(ustr ''name'', JStr (ustr ''C'')), (ustr ''uri_check'', JStr (ustr ''https://c.net/{account}''))],
      JObj [(ustr ''name'', JStr (ustr ''D'')), (ustr ''uri_check'', JStr (ustr ''https://{account}.d.net''))],
      JObj [(ustr ''name'', JStr (ustr ''E'')), (ustr ''uri_check'', JStr (ustr ''https://e.net/about''))]] :: unit json list"
  have sites: "py_getitem five_catalog (ustr ''sites'') = Inr (JArr ?sites)"
    by (simp add: py_getitem_def five_catalog_def)
  have defs: "list_all site_definition ?sites"
    by (simp add: site_definition_def ustr_def)
  have order: "{..<length ?sites} \<subseteq> set [0, 1, 2, 3, 4]"
    "{..<length ?sites} \<subseteq> set [3, 0, 4, 2, 1]"
    by (auto simp: lessThan_def less_Suc_eq numeral_eq_Suc)
  have agree: "\<forall>i. i \<notin> {2} \<longrightarrow> net_one_down i = net_up i"
    by (auto simp: net_one_down_def net_up_def fun_eq_iff)
  have url: "site_url (?sites ! 2) (ustr ''alice'') = Inr (ustr ''https://c.net/alice'')"
    "net_one_down 2 (ustr ''GET'') (ustr ''https://c.net/alice'') =
       Inl (NetworkError (ustr ''https://c.net/alice''))"
    by (simp_all add: probe_eval)
  obtain rs rs' where
    "fetchResults example_lib \<lparr>catalog_file = Some five_sites, stdout = []\<rparr> net_up
       [0, 1, 2, 3, 4] (ustr ''alice'') = Some (Inr rs)"
    "fetchResults example_lib \<lparr>catalog_file = Some five_sites, stdout = []\<rparr> net_one_down
       [3, 0, 4, 2, 1] (ustr ''alice'') = Some (Inr rs')"
    "length rs = length ?sites" "length rs' = length ?sites"
    "\<forall>i<length ?sites. i \<notin> {2} \<longrightarrow> rs' ! i = rs ! i"
    "\<forall>i<length ?sites. \<forall>url e. site_url (?sites ! i) (ustr ''alice'') = Inr url \<and>
        net_one_down i (ustr ''GET'') url = Inl e \<longrightarrow> rs' ! i = Inl e"
    using fetchResults_isolates_failures
      [OF readList_five_sites sites defs order agree, of "ustr ''alice''"]
    by blast
  then show ?thesis
    using url by (intro exI [of _ rs] exI [of _ rs']) auto
qed

section \<open>Properties of saving the catalog (\<open>downloadList\<close>)\<close>

lemma write_chunks_encodable:
  "encodable_chunks chunks \<Longrightarrow> write_chunks chunks = (concat chunks, True)"
  by (induction chunks) (auto simp: encodable_chunks_def)

lemma encodable_chunks_append [simp]:
  "encodable_chunks (xs @ ys) \<longleftrightarrow> encodable_chunks xs \<and> encodable_chunks ys"
  by (simp add: encodable_chunks_def)

lemma encodable_chunks_Cons [simp]:
  "encodable_chunks (x # xs) \<longleftrightarrow> list_all encodable x \<and> encodable_chunks xs"
  by (simp add: encodable_chunks_def)

lemma encodable_chunks_Nil [simp]: "encodable_chunks []"
  by (simp add: encodable_chunks_def)

lemma encodable_hexdigit: "d < 16 \<Longrightarrow> encodable (hexdigit d)"
  by (simp add: encodable_def hexdigit_def)

lemma encodable_escape_dct: "c < 32 \<or> c = 34 \<or> c = 92 \<Longrightarrow> list_all encodable (escape_dct c)"
  by (auto simp: escape_dct_def ustr_def hex4_def encodable_hexdigit) (simp_all add: encodable_def)

lemma encodable_basestring:
  "list_all encodable s \<Longrightarrow> list_all encodable (encode_basestring s)"
  unfolding encode_basestring_def
  by (induction s) (auto simp: encodable_escape_dct, simp_all add: encodable_def)

lemma encodable_nat_digits: "list_all encodable (nat_digits n)"
proof (induction n rule: nat_digits.induct)
  case (1 n)
  have "n mod 10 < 10"
    by simp
  then have "encodable (48 + n mod 10)" "n < 10 \<Longrightarrow> encodable (48 + n)"
    unfolding encodable_def by linarith+
  then show ?case
    using 1 by (subst nat_digits.simps) auto
qed

lemma encodable_int_repr: "list_all encodable (int_repr i)"
  by (simp add: int_repr_def encodable_nat_digits) (simp add: encodable_def)

lemma encodable_newline_indent: "list_all encodable (newline_indent E lvl)"
  by (auto simp: newline_indent_def list_all_iff split: option.splits) (simp_all add: encodable_def)

lemma encodable_separators:
  "list_all encodable (item_separator E)" "list_all encodable key_separator"
  "list_all encodable (ustr ''['')" "list_all encodable (ustr '']'')"
  "list_all encodable (ustr ''{'')" "list_all encodable (ustr ''}'')"
  "list_all encodable (ustr ''[]'')" "list_all encodable (ustr ''{}'')"
  by (simp_all add: item_separator_def key_separator_def ustr_def encodable_def)

lemma dump_encoder_simps [simp]:
  "string_encoder (dump_encoder L) = encode_basestring"
  "floatstr (dump_encoder L) = float_repr L"
  "indent (dump_encoder L) = Some 4"
  "sort_keys (dump_encoder L) = False"
  by (simp_all add: dump_encoder_def)

lemma encodable_scalar:
  "encodable_value L v \<Longrightarrow> scalar_text (dump_encoder L) v = Some t \<Longrightarrow> list_all encodable t"
  by (cases v) (auto simp: encodable_basestring encodable_int_repr ustr_def,
                simp_all add: encodable_def)

lemma encodable_with_bufs:
  assumes "list_all encodable buf" "list_all encodable sep"
    and "\<forall>f\<in>set fs. \<forall>b. list_all encodable b \<longrightarrow> encodable_chunks (f b)"
  shows "encodable_chunks (with_bufs buf sep fs)"
  using assms by (induction fs arbitrary: buf) auto


lemma encodable_list_item:
  assumes "encodable_value L x" and "\<And>lvl. encodable_chunks (iterencode (dump_encoder L) lvl x)"
    and "list_all encodable buf"
  shows "encodable_chunks (case scalar_text (dump_encoder L) x of
                             Some t \<Rightarrow> [buf @ t]
                           | None \<Rightarrow> buf # iterencode (dump_encoder L) lvl x)"
  using assms encodable_scalar [of L x] by (auto split: option.splits)

lemma encodable_dict_item:
  assumes "list_all encodable k" and "encodable_value L v"
    and "\<And>lvl. encodable_chunks (iterencode (dump_encoder L) lvl v)"
    and "list_all encodable buf"
  shows "encodable_chunks ((if buf = [] then [] else [buf]) @
           [string_encoder (dump_encoder L) k, key_separator] @
           (case scalar_text (dump_encoder L) v of
              Some t \<Rightarrow> [t]
            | None \<Rightarrow> iterencode (dump_encoder L) lvl v))"
  using assms encodable_scalar [of L v] encodable_basestring [of k]
  by (auto split: option.splits simp: encodable_separators)

lemma encodable_iterencode:
  "encodable_value L v \<Longrightarrow> encodable_chunks (iterencode (dump_encoder L) lvl v)"
proof (induction v arbitrary: lvl)
  case (JArr xs)
  have "encodable_chunks (with_bufs buf sep
          (map (\<lambda>x buf. case scalar_text (dump_encoder L) x of
                            Some t \<Rightarrow> [buf @ t]
                          | None \<Rightarrow> buf # iterencode (dump_encoder L) (lvl + 1) x) xs))"
    if "list_all encodable buf" "list_all encodable sep" for buf sep
    using that JArr
    by (intro encodable_with_bufs) (auto simp: list_all_iff intro!: encodable_list_item)
  then show ?case
    by (simp add: encodable_separators encodable_newline_indent)
next
  case (JObj kvs)
  let ?item = "\<lambda>(k, v) buf. (if buf = [] then [] else [buf]) @
                     [string_encoder (dump_encoder L) k, key_separator] @
                     (case scalar_text (dump_encoder L) v of
                        Some t \<Rightarrow> [t]
                      | None \<Rightarrow> iterencode (dump_encoder L) (lvl + 1) v)"
  have "encodable_chunks (with_bufs buf sep (map ?item kvs))"
    if "list_all encodable buf" "list_all encodable sep" for buf sep
  proof (intro encodable_with_bufs ballI allI impI that)
    fix f b
    assume "f \<in> set (map ?item kvs)" and b: "list_all encodable b"
    then obtain k v where kv: "(k, v) \<in> set kvs" and f: "f = ?item (k, v)"
      by auto
    have "list_all encodable k" "encodable_value L v"
      using JObj.prems kv by (auto simp: list_all_iff)
    moreover have "encodable_chunks (iterencode (dump_encoder L) l v)" for l
      using JObj.IH [of "(k, v)" v l] kv \<open>encodable_value L v\<close> by simp
    ultimately show "encodable_chunks (f b)"
      unfolding f using encodable_dict_item [of k L v b "lvl + 1"] b by simp
  qed
  then show ?case
    by (simp add: encodable_separators encodable_newline_indent)
qed (simp_all add: ustr_def encodable_basestring encodable_int_repr,
     simp_all add: encodable_def)

text \<open>Rules to run the encoder on a given value.\<close>

lemma replicate_numeral:
  "replicate (numeral k) x = x # replicate (pred_numeral k) x"
  by (simp add: numeral_eq_Suc)

lemmas dumps_eval =
  dumps_def ustr_def encode_basestring_def encode_basestring_ascii_def escape_ascii_def
  escape_dct_def hex4_def hexdigit_def
  int_repr_def nat_digits.simps newline_indent_def item_separator_def key_separator_def
  replicate_numeral

lemma print_file [simp]: "catalog_file (print line w) = catalog_file w"
  by (simp add: print_def)

lemma readList_print [simp]: "readList L (print line w) = readList L w"
  by (simp add: readList_def)

text \<open>
  What reaches the file is always a prefix of the document, and the write runs to its end
  exactly when the document holds no surrogate code point.
\<close>

lemma encode_basestring_body:
  "encode_basestring s = 34 # concat (map escape_char s) @ [34]"
  by (simp add: encode_basestring_def escape_char_def [abs_def])

lemma write_chunks_prefix: "\<exists>n. fst (write_chunks chunks) = take n (concat chunks)"
proof (induction chunks)
  case Nil
  show ?case by simp
next
  case (Cons chunk chunks)
  then obtain n where n: "fst (write_chunks chunks) = take n (concat chunks)"
    by blast
  show ?case
  proof (cases "list_all encodable chunk")
    case True
    then have "fst (write_chunks (chunk # chunks)) = take (length chunk + n) (concat (chunk # chunks))"
      by (simp add: n)
    then show ?thesis by blast
  next
    case False
    then have "fst (write_chunks (chunk # chunks)) = take 0 (concat (chunk # chunks))"
      by simp
    then show ?thesis by blast
  qed
qed

lemma write_chunks_complete: "snd (write_chunks chunks) \<longleftrightarrow> encodable_chunks chunks"
  by (induction chunks) simp_all

lemma encodable_body_conv:
  "list_all encodable (concat (map escape_char s)) \<Longrightarrow> list_all encodable s"
proof (induction s)
  case Nil
  show ?case by simp
next
  case (Cons c s)
  have "encodable c"
  proof (cases "c < 32 \<or> c = 34 \<or> c = 92")
    case True
    then show ?thesis by (auto simp: encodable_def)
  next
    case False
    then show ?thesis using Cons.prems by (simp add: escape_char_def)
  qed
  then show ?case
    using Cons by simp
qed

lemma encodable_basestring_conv:
  "list_all encodable (encode_basestring s) \<Longrightarrow> list_all encodable s"
  by (simp add: encode_basestring_body encodable_body_conv)

lemma encodable_scalar_conv:
  "scalar_text (dump_encoder L) v = Some t \<Longrightarrow> list_all encodable t \<Longrightarrow> encodable_value L v"
  by (cases v) (auto simp: encodable_basestring_conv)

lemma encodable_with_bufs_conv:
  "encodable_chunks (with_bufs buf sep fs) \<Longrightarrow> f \<in> set fs \<Longrightarrow> \<exists>b. encodable_chunks (f b)"
  by (induction fs arbitrary: buf) auto

lemma encodable_iterencode_conv:
  "encodable_chunks (iterencode (dump_encoder L) lvl v) \<Longrightarrow> encodable_value L v"
proof (induction v arbitrary: lvl)
  case (JArr xs)
  let ?item = "\<lambda>x buf. case scalar_text (dump_encoder L) x of
                            Some t \<Rightarrow> [buf @ t]
                          | None \<Rightarrow> buf # iterencode (dump_encoder L) (lvl + 1) x"
  have "encodable_value L x" if x: "x \<in> set xs" for x
  proof -
    have "xs \<noteq> []" using x by auto
    then have "encodable_chunks (with_bufs (ustr ''['' @ newline_indent (dump_encoder L) (lvl + 1))
        (item_separator (dump_encoder L) @ newline_indent (dump_encoder L) (lvl + 1)) (map ?item xs))"
      using JArr.prems by simp
    then obtain b where b: "encodable_chunks (?item x b)"
      using encodable_with_bufs_conv [of _ _ "map ?item xs" "?item x"] x by auto
    show ?thesis
    proof (cases "scalar_text (dump_encoder L) x")
      case None
      then have "encodable_chunks (iterencode (dump_encoder L) (lvl + 1) x)"
        using b by simp
      then show ?thesis
        using JArr.IH [OF x] by blast
    next
      case (Some t)
      then have "list_all encodable t"
        using b by simp
      then show ?thesis
        using Some by (rule encodable_scalar_conv [rotated])
    qed
  qed
  then show ?case
    by (simp add: list_all_iff)
next
  case (JObj kvs)
  let ?item = "\<lambda>(k, v) buf. (if buf = [] then [] else [buf]) @
                     [string_encoder (dump_encoder L) k, key_separator] @
                     (case scalar_text (dump_encoder L) v of
                        Some t \<Rightarrow> [t]
                      | None \<Rightarrow> iterencode (dump_encoder L) (lvl + 1) v)"
  have "list_all encodable k \<and> encodable_value L v" if kv: "(k, v) \<in> set kvs" for k v
  proof -
    have "kvs \<noteq> []" using kv by auto
    then have "encodable_chunks (with_bufs []
        (item_separator (dump_encoder L) @ newline_indent (dump_encoder L) (lvl + 1)) (map ?item kvs))"
      using JObj.prems by simp
    then obtain b where b: "encodable_chunks (?item (k, v) b)"
      using encodable_with_bufs_conv [of _ _ "map ?item kvs" "?item (k, v)"] kv by force
    then have key: "list_all encodable k"
      by (simp add: encodable_basestring_conv)
    have "encodable_value L v"
    proof (cases "scalar_text (dump_encoder L) v")
      case None
      then have "encodable_chunks (iterencode (dump_encoder L) (lvl + 1) v)"
        using b by simp
      then show ?thesis
        using JObj.IH [of "(k, v)" v "lvl + 1"] kv by simp
    next
      case (Some t)
      then have "list_all encodable t"
        using b by simp
      then show ?thesis
        using Some by (rule encodable_scalar_conv [rotated])
    qed
    then show ?thesis
      using key by simp
  qed
  then show ?case
    by (auto simp: list_all_iff)
qed (simp_all add: encodable_basestring_conv)

lemma write_outcome:
  "snd (write_chunks (iterencode (dump_encoder L) 0 v)) \<longleftrightarrow> encodable_value L v"
  using encodable_iterencode [of L v 0] encodable_iterencode_conv [of L 0 v]
  by (auto simp: write_chunks_complete)

text \<open>
  Claim C4, as the code has it.  \<open>downloadList\<close> writes the document in place.  When the
  request raises, or the file cannot be opened, the exception surfaces and the world is
  as before.  Once the file is open the old content is gone.  For a document with no
  surrogate code point (\<open>encodable_value\<close>): when the write runs to its end the call
  returns and the file holds the whole document; when the write stops after \<open>n\<close> code
  points, the failure surfaces as \<open>OSError\<close> (\<open>IOError\<close> is the same class) and the file
  holds the first \<open>n\<close> code points of the new document.  For a document that holds a
  surrogate code point, with no fault of the file system, the call raises
  \<open>UnicodeEncodeError\<close>, which is not an \<open>OSError\<close>.  In every case where the file was
  opened, whatever the document and the fault: the file holds a prefix of the new
  document, nothing is printed, the call returns or raises \<open>OSError\<close> or
  \<open>UnicodeEncodeError\<close> and nothing else, and it returns only when the file holds the
  whole document.
\<close>

theorem downloadList_writes_in_place:
  "(doSyncRequest net k (ustr ''GET'') url = Inl e \<longrightarrow>
      downloadList L url net k fault w = (Some e, w)) \<and>
   (doSyncRequest net k (ustr ''GET'') url = Inr (r, v) \<and> fault = Open_fails \<longrightarrow>
      downloadList L url net k fault w = (Some OSError, w)) \<and>
   (doSyncRequest net k (ustr ''GET'') url = Inr (r, v) \<and> encodable_value L v \<and> fault = No_fault \<longrightarrow>
      downloadList L url net k fault w =
        (None, w\<lparr>catalog_file := Some (dumps (dump_encoder L) v)\<rparr>)) \<and>
   (doSyncRequest net k (ustr ''GET'') url = Inr (r, v) \<and> encodable_value L v \<and>
    fault = Write_fails n \<and> n < length (dumps (dump_encoder L) v) \<longrightarrow>
      downloadList L url net k fault w =
        (Some OSError, w\<lparr>catalog_file := Some (take n (dumps (dump_encoder L) v))\<rparr>)) \<and>
   (doSyncRequest net k (ustr ''GET'') url = Inr (r, v) \<and> \<not> encodable_value L v \<and>
    fault = No_fault \<longrightarrow>
      fst (downloadList L url net k fault w) = Some UnicodeEncodeError) \<and>
   (doSyncRequest net k (ustr ''GET'') url = Inr (r, v) \<and> fault \<noteq> Open_fails \<longrightarrow>
      (\<exists>m. catalog_file (snd (downloadList L url net k fault w)) =
             Some (take m (dumps (dump_encoder L) v))) \<and>
      stdout (snd (downloadList L url net k fault w)) = stdout w \<and>
      (fst (downloadList L url net k fault w) = None \<or>
       fst (downloadList L url net k fault w) = Some OSError \<or>
       fst (downloadList L url net k fault w) = Some UnicodeEncodeError) \<and>
      (fst (downloadList L url net k fault w) = None \<longrightarrow>
         catalog_file (snd (downloadList L url net k fault w)) = Some (dumps (dump_encoder L) v)))"
proof -
  let ?chunks = "iterencode (dump_encoder L) 0 v"
  obtain m where m: "fst (write_chunks ?chunks) = take m (dumps (dump_encoder L) v)"
    using write_chunks_prefix [of ?chunks] by (auto simp: dumps_def)
  have ok: "snd (write_chunks ?chunks) \<longleftrightarrow> encodable_value L v"
    by (rule write_outcome)
  have full: "encodable_value L v \<Longrightarrow> write_chunks ?chunks = (dumps (dump_encoder L) v, True)"
    using write_chunks_encodable [OF encodable_iterencode, of L v 0] by (simp add: dumps_def)
  have cut: "\<exists>j. take i (fst (write_chunks ?chunks)) = take j (dumps (dump_encoder L) v)" for i
    unfolding m by (metis take_take)
  have "downloadList L url net k fault w = (Some e, w)"
    if "doSyncRequest net k (ustr ''GET'') url = Inl e"
    using that by (simp add: downloadList_def)
  moreover have "downloadList L url net k fault w = (Some OSError, w)"
    if "doSyncRequest net k (ustr ''GET'') url = Inr (r, v)" "fault = Open_fails"
    using that by (simp add: downloadList_def dump_to_file_def)
  moreover have "downloadList L url net k fault w =
        (None, w\<lparr>catalog_file := Some (dumps (dump_encoder L) v)\<rparr>)"
    if "doSyncRequest net k (ustr ''GET'') url = Inr (r, v)" "encodable_value L v" "fault = No_fault"
    using that full by (simp add: downloadList_def dump_to_file_def)
  moreover have "downloadList L url net k fault w =
        (Some OSError, w\<lparr>catalog_file := Some (take n (dumps (dump_encoder L) v))\<rparr>)"
    if "doSyncRequest net k (ustr ''GET'') url = Inr (r, v)" "encodable_value L v"
      "fault = Write_fails n" "n < length (dumps (dump_encoder L) v)"
    using that full by (simp add: downloadList_def dump_to_file_def)
  moreover have "fst (downloadList L url net k fault w) = Some UnicodeEncodeError"
    if "doSyncRequest net k (ustr ''GET'') url = Inr (r, v)" "\<not> encodable_value L v" "fault = No_fault"
    using that ok by (simp add: downloadList_def dump_to_file_def)
  moreover have "(\<exists>m. catalog_file (snd (downloadList L url net k fault w)) =
             Some (take m (dumps (dump_encoder L) v))) \<and>
      stdout (snd (downloadList L url net k fault w)) = stdout w \<and>
      (fst (downloadList L url net k fault w) = None \<or>
       fst (downloadList L url net k fault w) = Some OSError \<or>
       fst (downloadList L url net k fault w) = Some UnicodeEncodeError) \<and>
      (fst (downloadList L url net k fault w) = None \<longrightarrow>
         catalog_file (snd (downloadList L url net k fault w)) = Some (dumps (dump_encoder L) v))"
    if req: "doSyncRequest net k (ustr ''GET'') url = Inr (r, v)" and opened: "fault \<noteq> Open_fails"
  proof -
    have whole: "fst (write_chunks ?chunks) = dumps (dump_encoder L) v" if "snd (write_chunks ?chunks)"
      using that ok full by simp
    show ?thesis
    proof (cases fault)
      case No_fault
      have res: "downloadList L url net k fault w =
          (if snd (write_chunks ?chunks) then None else Some UnicodeEncodeError,
           w\<lparr>catalog_file := Some (fst (write_chunks ?chunks))\<rparr>)"
        by (simp add: downloadList_def dump_to_file_def req No_fault)
      have "\<exists>m. catalog_file (snd (downloadList L url net k fault w)) =
             Some (take m (dumps (dump_encoder L) v))"
        unfolding res using m by auto
      then show ?thesis
        using whole by (simp add: res)
    next
      case Open_fails
      then show ?thesis using opened by simp
    next
      case (Write_fails i)
      show ?thesis
      proof (cases "i < length (fst (write_chunks ?chunks))")
        case True
        then have res: "downloadList L url net k fault w =
            (Some OSError, w\<lparr>catalog_file := Some (take i (fst (write_chunks ?chunks)))\<rparr>)"
          by (simp add: downloadList_def dump_to_file_def req Write_fails)
        have "\<exists>m. catalog_file (snd (downloadList L url net k fault w)) =
             Some (take m (dumps (dump_encoder L) v))"
          unfolding res using cut [of i] by auto
        then show ?thesis
          by (simp add: res)
      next
        case False
        then have res: "downloadList L url net k fault w =
            (if snd (write_chunks ?chunks) then None else Some UnicodeEncodeError,
             w\<lparr>catalog_file := Some (fst (write_chunks ?chunks))\<rparr>)"
          by (simp add: downloadList_def dump_to_file_def req Write_fails)
        have "\<exists>m. catalog_file (snd (downloadList L url net k fault w)) =
               Some (take m (dumps (dump_encoder L) v))"
          unfolding res using m by auto
        then show ?thesis
          using whole by (simp add: res)
      qed
    qed
  qed
  ultimately show ?thesis
    by blast
qed

theorem downloadList_writes_in_place_witness:
  "downloadList example_lib (ustr ''https://list'') net_down 0 No_fault
     \<lparr>catalog_file = Some five_sites, stdout = []\<rparr> =
     (Some (NetworkError (ustr ''https://list'')), \<lparr>catalog_file = Some five_sites, stdout = []\<rparr>) \<and>
   downloadList example_lib (ustr ''https://list'') (net_remote (JObj [(ustr ''sites'', JArr [])])) 0 Open_fails
     \<lparr>catalog_file = Some five_sites, stdout = []\<rparr> =
     (Some OSError, \<lparr>catalog_file = Some five_sites, stdout = []\<rparr>) \<and>
   downloadList example_lib (ustr ''https://list'') (net_remote (JObj [(ustr ''sites'', JArr [])])) 0 No_fault
     \<lparr>catalog_file = Some five_sites, stdout = []\<rparr> =
     (None, \<lparr>catalog_file = Some ([123, 10] @ ustr ''    '' @ [34] @ ustr ''sites'' @ [34] @ ustr '': []'' @ [10, 125]),
             stdout = []\<rparr>) \<and>
   downloadList example_lib (ustr ''https://list'') (net_remote (JObj [(ustr ''sites'', JArr [])])) 0 (Write_fails 5)
     \<lparr>catalog_file = Some five_sites, stdout = []\<rparr> =
     (Some OSError, \<lparr>catalog_file = Some ([123, 10] @ ustr ''   ''), stdout = []\<rparr>) \<and>
   downloadList example_lib (ustr ''https://list'') (net_remote surrogate_note) 0 No_fault
     \<lparr>catalog_file = Some five_sites, stdout = []\<rparr> =
     (Some UnicodeEncodeError,
      \<lparr>catalog_file = Some ([123, 10] @ ustr ''    '' @ [34] @ ustr ''sites'' @ [34] @ ustr '': [],'' @
                              [10] @ ustr ''    '' @ [34] @ ustr ''note'' @ [34] @ ustr '': ''),
        stdout = []\<rparr>)"
proof -
  let ?v = "JObj [(ustr ''sites'', JArr [])] :: unit json"
  let ?w = "\<lparr>catalog_file = Some five_sites, stdout = []\<rparr>"
  have down: "doSyncRequest net_down 0 (ustr ''GET'') (ustr ''https://list'') =
      Inl (NetworkError (ustr ''https://list''))"
    by (simp add: doSyncRequest_def net_down_def)
  have up: "doSyncRequest (net_remote v) 0 (ustr ''GET'') (ustr ''https://list'') =
      Inr (remote_page v, v)" for v
    by (simp add: doSyncRequest_def net_remote_def remote_page_def)
  have enc: "encodable_value example_lib ?v" "\<not> encodable_value example_lib surrogate_note"
    by (simp_all add: surrogate_note_def ustr_def encodable_def)
  have doc: "dumps (dump_encoder example_lib) ?v =
      [123, 10] @ ustr ''    '' @ [34] @ ustr ''sites'' @ [34] @ ustr '': []'' @ [10, 125]"
    by (simp add: dumps_eval)
  have cut: "snd (downloadList example_lib (ustr ''https://list'') (net_remote surrogate_note) 0 No_fault ?w) =
      \<lparr>catalog_file = Some ([123, 10] @ ustr ''    '' @ [34] @ ustr ''sites'' @ [34] @ ustr '': [],'' @
                              [10] @ ustr ''    '' @ [34] @ ustr ''note'' @ [34] @ ustr '': ''),
        stdout = []\<rparr>"
    unfolding downloadList_def up
    by (simp add: dump_to_file_def surrogate_note_def dumps_eval encodable_def)
  have "fst (downloadList example_lib (ustr ''https://list'') (net_remote surrogate_note) 0 No_fault ?w) =
      Some UnicodeEncodeError"
    using up [of surrogate_note] enc(2)
      downloadList_writes_in_place [where net = "net_remote surrogate_note" and k = 0
        and url = "ustr ''https://list''" and L = example_lib and fault = No_fault and w = ?w
        and r = "remote_page surrogate_note" and v = surrogate_note]
    by simp
  then have bad: "downloadList example_lib (ustr ''https://list'') (net_remote surrogate_note) 0 No_fault ?w =
      (Some UnicodeEncodeError,
       \<lparr>catalog_file = Some ([123, 10] @ ustr ''    '' @ [34] @ ustr ''sites'' @ [34] @ ustr '': [],'' @
                              [10] @ ustr ''    '' @ [34] @ ustr ''note'' @ [34] @ ustr '': ''),
        stdout = []\<rparr>)"
    using cut by (simp add: prod_eq_iff)
  show ?thesis
    using down up [of ?v] enc(1)
      downloadList_writes_in_place [where net = net_down and k = 0 and url = "ustr ''https://list''"
        and L = example_lib and fault = No_fault and w = ?w]
      downloadList_writes_in_place [where net = "net_remote ?v" and k = 0 and url = "ustr ''https://list''"
        and L = example_lib and fault = Open_fails and w = ?w and r = "remote_page ?v" and v = ?v]
      downloadList_writes_in_place [where net = "net_remote ?v" and k = 0 and url = "ustr ''https://list''"
        and L = example_lib and fault = No_fault and w = ?w and r = "remote_page ?v" and v = ?v]
      downloadList_writes_in_place [where net = "net_remote ?v" and k = 0 and url = "ustr ''https://list''"
        and L = example_lib and fault = "Write_fails 5" and w = ?w and r = "remote_page ?v" and v = ?v
        and n = 5]
    unfolding bad by (simp add: doc) (simp add: ustr_def)
qed

text \<open>
  The write is not atomic: a write that stops partway leaves a truncated document where
  the old catalog was.
\<close>

theorem downloadList_truncates_counterexample:
  "downloadList example_lib (ustr ''https://list'') (net_remote (JObj [(ustr ''sites'', JArr [])])) 0 (Write_fails 5)
     \<lparr>catalog_file = Some five_sites, stdout = []\<rparr> =
     (Some OSError, \<lparr>catalog_file = Some ([123, 10] @ ustr ''   ''), stdout = []\<rparr>) \<and>
   [123, 10] @ ustr ''   '' \<noteq> five_sites"
  by (simp add: downloadList_def doSyncRequest_def net_remote_def remote_page_def dump_to_file_def
        example_lib_def dumps_eval five_sites_def encodable_def)


section \<open>Properties of the freshness check (\<open>checkUpdates\<close>)\<close>

text \<open>
  When a local catalog is present and the request for the remote list raises, the
  exception ends the call and the catalog file is as before.
\<close>

lemma checkUpdates_fetch_raises:
  assumes "readList L w = Inr local" and "net 0 (ustr ''GET'') url = Inl e"
  shows "checkUpdates L url net fault w = (Some e, print ''[-] Checking for updates...'' w)"
proof -
  have "catalog_file w \<noteq> None"
    using assms(1) by (auto simp: readList_def split: option.splits)
  then show ?thesis
    using assms by (simp add: checkUpdates_def doSyncRequest_def Let_def)
qed

text \<open>
  Claim C3 is about what follows; the code does not meet it.  When a local catalog is
  present and the remote answers with a body that is not JSON, \<open>doSyncRequest\<close> gives
  \<open>None\<close> for the parsed list.  Its digest is that of \<open>null\<close>, which differs from the
  digest of the local catalog, so \<open>downloadList\<close> runs and writes what it fetched: the
  catalog file then holds the text \<open>null\<close>, and no exception is raised.
\<close>

theorem checkUpdates_undecodable_remote:
  assumes "readList L w = Inr local"
    and "net 0 (ustr ''GET'') url = Inr r0" and "json_method r0 = Inl e0"
    and "net 1 (ustr ''GET'') url = Inr r1" and "json_method r1 = Inl e1"
    and "hashJSON L local \<noteq> hashJSON L JNull"
  shows "fst (checkUpdates L url net No_fault w) = None \<and>
         catalog_file (snd (checkUpdates L url net No_fault w)) = Some (ustr ''null'')"
proof -
  have "catalog_file w \<noteq> None"
    using assms(1) by (auto simp: readList_def split: option.splits)
  moreover have "write_chunks [ustr ''null''] = (ustr ''null'', True)"
    by (simp add: ustr_def encodable_def)
  ultimately show ?thesis
    using assms
    by (simp add: checkUpdates_def doSyncRequest_def downloadList_def dump_to_file_def Let_def)
qed

lemma readList_five_sites_any:
  "catalog_file w = Some five_sites \<Longrightarrow> readList example_lib w = Inr five_catalog"
  using readList_five_sites by (simp add: readList_def)

theorem checkUpdates_undecodable_remote_witness:
  "checkUpdates example_lib (ustr ''https://list'') net_up No_fault
     \<lparr>catalog_file = Some five_sites, stdout = []\<rparr> =
   (None, \<lparr>catalog_file = Some (ustr ''null''),
           stdout = [ustr ''[-] Checking for updates...'', ustr ''[!] Updating...'']\<rparr>)"
proof -
  let ?w = "\<lparr>catalog_file = Some five_sites, stdout = []\<rparr>"
  have fetch: "net_up k (ustr ''GET'') (ustr ''https://list'') = Inr (page (ustr ''https://list''))"
      "json_method (page (ustr ''https://list'')) = Inl JSONDecodeError" for k
    by (simp_all add: net_up_def page_def)
  have differ: "hashJSON example_lib five_catalog \<noteq> hashJSON example_lib JNull"
    by (simp add: hashJSON_def example_lib_def five_catalog_def dumps_eval)
  have out: "stdout (snd (checkUpdates example_lib (ustr ''https://list'') net_up No_fault ?w)) =
      [ustr ''[-] Checking for updates...'', ustr ''[!] Updating...'']"
    using differ fetch
    by (simp add: checkUpdates_def doSyncRequest_def downloadList_def dump_to_file_def Let_def
          readList_five_sites_any) (simp add: print_def)
  show ?thesis
    using checkUpdates_undecodable_remote
      [where net = net_up and url = "ustr ''https://list''" and L = example_lib and w = ?w,
       OF readList_five_sites fetch(1) [of 0] fetch(2) fetch(1) [of 1] fetch(2) differ] out
    by (cases "checkUpdates example_lib (ustr ''https://list'') net_up No_fault ?w")
       (simp add: world.equality)
qed

section \<open>Properties of the fingerprint (\<open>hashJSON\<close>)\<close>

lemma same_content_scalar:
  "same_content v v' \<Longrightarrow> scalar_text E v = scalar_text E v'"
  by (induction v v' rule: same_content.induct) auto

lemma same_content_Arr:
  "same_content (JArr xs) v' \<Longrightarrow> \<exists>ys. v' = JArr ys \<and> list_all2 same_content xs ys"
  by (cases v') auto

lemma same_content_Obj:
  "same_content (JObj kvs) v' \<Longrightarrow>
   \<exists>kvs'. v' = JObj kvs' \<and> length kvs = length kvs' \<and>
     (\<forall>(k, v)\<in>set kvs. \<exists>v'. map_of kvs' k = Some v' \<and> same_content v v')"
  by (cases v') (auto simp: list_all_iff split: option.splits)

lemma distinct_map_insort_key:
  "distinct (map f (insort_key f x xs)) \<longleftrightarrow> f x \<notin> f ` set xs \<and> distinct (map f xs)"
  by (induction xs) (auto simp: set_insort_key)

lemma distinct_map_sort_key:
  "distinct (map f (sort_key f xs)) \<longleftrightarrow> distinct (map f xs)"
  by (induction xs) (auto simp: distinct_map_insort_key)

lemma same_keys:
  assumes "distinct (map fst kvs)" "distinct (map fst kvs')" "length kvs = length kvs'"
    and "\<forall>(k, v)\<in>set kvs. \<exists>v'. map_of kvs' k = Some v' \<and> same_content v v'"
  shows "fst ` set kvs = fst ` set kvs'"
proof (rule card_subset_eq)
  show "finite (fst ` set kvs')" by simp
  show "fst ` set kvs \<subseteq> fst ` set kvs'"
    using assms(4) by (force dest: map_of_SomeD)
  have "card (fst ` set kvs) = length kvs" "card (fst ` set kvs') = length kvs'"
    using assms(1,2) distinct_card [of "map fst kvs"] distinct_card [of "map fst kvs'"] by simp_all
  then show "card (fst ` set kvs) = card (fst ` set kvs')"
    using assms(3) by simp
qed

lemma sorted_keys_equal:
  assumes "distinct (map fst kvs)" "distinct (map fst kvs')" "fst ` set kvs = fst ` set kvs'"
  shows "map fst (sort_key fst kvs) = map fst (sort_key fst kvs')"
  using assms
  by (intro sorted_distinct_set_unique) (simp_all add: distinct_map_sort_key)


text \<open>
  With \<open>sort_keys\<close> the encoder writes two values of the same content alike: the items
  of a dict are written in the order of their keys, whatever order the dict has them in.
\<close>

lemma iterencode_same_content:
  assumes "sort_keys E"
  shows "py_value c \<Longrightarrow> py_value c' \<Longrightarrow> same_content c c' \<Longrightarrow>
         iterencode E lvl c = iterencode E lvl c'"
proof (induction c arbitrary: c' lvl)
  case (JArr xs)
  obtain ys where c': "c' = JArr ys" and rel: "list_all2 same_content xs ys"
    using same_content_Arr [OF JArr.prems(3)] by blast
  let ?item = "\<lambda>x buf. case scalar_text E x of
                            Some t \<Rightarrow> [buf @ t]
                          | None \<Rightarrow> buf # iterencode E (lvl + 1) x"
  have len: "length xs = length ys"
    using rel by (rule list_all2_lengthD)
  have "?item (xs ! i) = ?item (ys ! i)" if "i < length xs" for i
  proof -
    have in_xs: "xs ! i \<in> set xs" and in_ys: "ys ! i \<in> set ys"
      using that len by simp_all
    have same: "same_content (xs ! i) (ys ! i)"
      using rel that by (simp add: list_all2_conv_all_nth)
    have "py_value (xs ! i)" "py_value (ys ! i)"
      using JArr.prems(1,2) in_xs in_ys by (simp_all add: c' list_all_iff)
    then have "iterencode E (lvl + 1) (xs ! i) = iterencode E (lvl + 1) (ys ! i)"
      using JArr.IH [OF in_xs _ _ same] by simp
    then show ?thesis
      using same_content_scalar [OF same, of E] by (simp cong: option.case_cong)
  qed
  then have "map ?item xs = map ?item ys"
    using len by (intro nth_equalityI) simp_all
  moreover have "xs = [] \<longleftrightarrow> ys = []"
    using len by auto
  ultimately show ?case
    by (simp add: c')
next
  case (JObj kvs)
  obtain kvs' where c': "c' = JObj kvs'" and len: "length kvs = length kvs'"
    and rel: "\<forall>(k, v)\<in>set kvs. \<exists>v'. map_of kvs' k = Some v' \<and> same_content v v'"
    using same_content_Obj [OF JObj.prems(3)] by blast
  have dist: "distinct (map fst kvs)" "distinct (map fst kvs')"
    using JObj.prems(1,2) by (simp_all add: c')
  let ?S = "sort_key fst kvs" and ?S' = "sort_key fst kvs'"
  let ?item = "\<lambda>(k, v) buf. (if buf = [] then [] else [buf]) @ [string_encoder E k, key_separator] @
                     (case scalar_text E v of
                        Some t \<Rightarrow> [t]
                      | None \<Rightarrow> iterencode E (lvl + 1) v)"
  have keys: "map fst ?S = map fst ?S'"
    using sorted_keys_equal [OF dist same_keys [OF dist len rel]] .
  then have lenS: "length ?S = length ?S'"
    by (metis length_map)
  have "?item (?S ! i) = ?item (?S' ! i)" if "i < length ?S" for i
  proof -
    obtain k v where kv: "?S ! i = (k, v)" by (cases "?S ! i")
    obtain k' v' where kv': "?S' ! i = (k', v')" by (cases "?S' ! i")
    have "k' = k"
      using keys that lenS kv kv' by (metis fst_conv nth_map)
    have in_kvs: "(k, v) \<in> set kvs"
      using that kv by (metis nth_mem set_sort)
    have in_kvs': "(k, v') \<in> set kvs'"
      using that lenS kv' \<open>k' = k\<close> by (metis nth_mem set_sort)
    have "map_of kvs' k = Some v'"
      using dist(2) in_kvs' by (rule map_of_is_SomeI)
    then have same: "same_content v v'"
      using rel in_kvs by auto
    have "py_value v" "py_value v'"
      using JObj.prems(1,2) in_kvs in_kvs' by (auto simp: c' list_all_iff)
    then have "iterencode E (lvl + 1) v = iterencode E (lvl + 1) v'"
      using JObj.IH [of "(k, v)" v v' "lvl + 1"] in_kvs same by simp
    then show ?thesis
      using same_content_scalar [OF same, of E]
      by (simp add: kv kv' \<open>k' = k\<close> cong: option.case_cong)
  qed
  then have "map ?item ?S = map ?item ?S'"
    using lenS by (intro nth_equalityI) simp_all
  moreover have "kvs = [] \<longleftrightarrow> kvs' = []"
    using len by auto
  ultimately show ?case
    using assms by (simp add: c')
qed (cases c'; simp)+

text \<open>
  Claim C7.  The fingerprint does not depend on the order of the keys: two catalogs that
  differ only in the order of the items of their dicts, at any depth, have the same
  digest.
\<close>

theorem hashJSON_key_order:
  assumes "py_value c" and "py_value c'" and "same_content c c'"
  shows "hashJSON L c = hashJSON L c'"
  using iterencode_same_content [OF _ assms, of _ 0]
  by (simp add: hashJSON_def dumps_def)

theorem hashJSON_key_order_witness:
  "reordered_a \<noteq> reordered_b \<and> hashJSON example_lib reordered_a = hashJSON example_lib reordered_b"
proof -
  have "py_value reordered_a" "py_value reordered_b" "same_content reordered_a reordered_b"
    by (simp_all add: reordered_a_def reordered_b_def ustr_def)
  then show ?thesis
    using hashJSON_key_order [of reordered_a reordered_b example_lib]
    by (simp add: reordered_a_def reordered_b_def ustr_def)
qed

section \<open>Reading back what was written\<close>

subsection \<open>Strings\<close>

lemma hexval_hexdigit: "d < 16 \<Longrightarrow> hexval (hexdigit d) = Some d"
  by (auto simp: hexval_def hexdigit_def)

lemma hex4_value:
  assumes "(n::nat) < 65536"
  shows "((n div 4096 mod 16 * 16 + n div 256 mod 16) * 16 + n div 16 mod 16) * 16 + n mod 16 = n"
proof -
  have a: "n div 4096 = n div 256 div 16"
    using div_mult2_eq [of n 256 16] by simp
  have b: "n div 256 = n div 16 div 16"
    using div_mult2_eq [of n 16 16] by simp
  have "n div 4096 mod 16 = n div 4096"
    using assms by simp
  moreover have "n div 256 = n div 4096 * 16 + n div 256 mod 16"
    unfolding a by simp
  moreover have "n div 16 = n div 256 * 16 + n div 16 mod 16"
    unfolding b by simp
  moreover have "n = n div 16 * 16 + n mod 16"
    by simp
  ultimately show ?thesis
    by presburger
qed

lemma decode_hex4: "n < 65536 \<Longrightarrow> decode_uXXXX (hex4 n @ r) = Some n"
  using hex4_value [of n] by (simp add: decode_uXXXX_def hex4_def hexval_hexdigit)

lemma scanstring_escape_char:
  "scanstring (escape_char c @ r) = add_char c (scanstring r)"
proof (cases "c < 32 \<or> c = 34 \<or> c = 92")
  case False
  then show ?thesis
    by (simp add: escape_char_def)
next
  case True
  consider "c = 92" | "c = 34" | "c = 8" | "c = 12" | "c = 10" | "c = 13" | "c = 9"
    | "c < 32" "c \<noteq> 8" "c \<noteq> 12" "c \<noteq> 10" "c \<noteq> 13" "c \<noteq> 9"
    using True by linarith
  then show ?thesis
  proof cases
    case 8
    then have "escape_char c = 92 # 117 # hex4 c"
      by (simp add: escape_char_def escape_dct_def ustr_def)
    then show ?thesis
      using 8(1) decode_hex4 [of c r] by (simp add: hex4_def)
  qed (simp_all add: escape_char_def escape_dct_def ustr_def backslash_def)
qed

lemma scanstring_body:
  "scanstring (concat (map escape_char s) @ 34 # r) = Inr (s, r)"
  by (induction s) (simp_all add: scanstring_escape_char add_char_def)

lemma scanstring_encode:
  "\<exists>body. encode_basestring s = 34 # body \<and> scanstring (body @ r) = Inr (s, r)"
  using scanstring_body [of s r] by (simp add: encode_basestring_body)


subsection \<open>Integers\<close>

lemma nat_digits_digits: "list_all is_digit (nat_digits n)"
proof (induction n rule: nat_digits.induct)
  case (1 n)
  have "n mod 10 < 10"
    by simp
  then have "is_digit (48 + n mod 10)" "n < 10 \<Longrightarrow> is_digit (48 + n)"
    unfolding is_digit_def by linarith+
  then show ?case
    using 1 by (subst nat_digits.simps) auto
qed

lemma nat_digits_first:
  "\<exists>d ds. nat_digits n = d # ds \<and> (if n = 0 then d = 48 \<and> ds = [] else 49 \<le> d \<and> d \<le> 57)"
proof (induction n rule: nat_digits.induct)
  case (1 n)
  show ?case
  proof (cases "n < 10")
    case True
    then show ?thesis
      by (subst nat_digits.simps) auto
  next
    case False
    then have "n div 10 \<noteq> 0"
      by simp
    then obtain d ds where "nat_digits (n div 10) = d # ds" "49 \<le> d" "d \<le> 57"
      using 1 False by auto
    then show ?thesis
      using False by (subst nat_digits.simps) auto
  qed
qed

lemma digits_value_snoc: "digits_value (ds @ [d]) = 10 * digits_value ds + (d - 48)"
  by (simp add: digits_value_def)

lemma digits_value_nat_digits: "digits_value (nat_digits n) = n"
proof (induction n rule: nat_digits.induct)
  case (1 n)
  show ?case
  proof (cases "n < 10")
    case True
    then show ?thesis
      by (subst nat_digits.simps) (simp add: digits_value_def)
  next
    case False
    then show ?thesis
      using 1 by (subst nat_digits.simps) (simp add: digits_value_snoc)
  qed
qed

lemma match_digits_all:
  "list_all is_digit ds \<Longrightarrow> ends_number r \<Longrightarrow> match_digits (ds @ r) = (ds, r)"
  by (cases r) (auto simp: match_digits_def ends_number_def list_all_iff
                     takeWhile_append dropWhile_append takeWhile_eq_all_conv dropWhile_eq_Nil_conv)

lemma match_integer_nat_digits:
  assumes "ends_number r"
  shows "match_integer (nat_digits n @ r) = Some (nat_digits n, r)"
proof -
  obtain d ds where ds: "nat_digits n = d # ds"
    and first: "if n = 0 then d = 48 \<and> ds = [] else 49 \<le> d \<and> d \<le> 57"
    using nat_digits_first [of n] by blast
  have "list_all is_digit ds"
    using nat_digits_digits [of n] ds by simp
  then have "match_digits (ds @ r) = (ds, r)"
    using assms by (rule match_digits_all)
  then show ?thesis
    using first by (auto simp: match_integer_def ds split: if_splits)
qed

lemma match_integer_int_repr:
  assumes "ends_number r"
  shows "match_integer (int_repr i @ r) = Some (int_repr i, r)"
proof (cases "i < 0")
  case False
  then show ?thesis
    using match_integer_nat_digits [OF assms] by (simp add: int_repr_def)
next
  case True
  obtain d ds where ds: "nat_digits (nat (- i)) = d # ds" and "49 \<le> d" "d \<le> 57"
    using nat_digits_first [of "nat (- i)"] True by auto
  have "list_all is_digit ds"
    using nat_digits_digits [of "nat (- i)"] ds by simp
  then have "match_digits (ds @ r) = (ds, r)"
    using assms by (rule match_digits_all)
  then show ?thesis
    using True \<open>49 \<le> d\<close> \<open>d \<le> 57\<close> by (simp add: int_repr_def match_integer_def ds)
qed

lemma parse_int_int_repr: "parse_int (int_repr i) = i"
proof (cases "i < 0")
  case True
  then show ?thesis
    by (simp add: parse_int_def int_repr_def digits_value_nat_digits)
next
  case False
  obtain d ds where ds: "nat_digits (nat i) = d # ds" and "48 \<le> d"
    using nat_digits_first [of "nat i"] by (auto split: if_splits)
  then have "d \<noteq> 45"
    by simp
  then show ?thesis
    using False digits_value_nat_digits [of "nat i"] by (simp add: parse_int_def int_repr_def ds)
qed

lemma match_frac_none: "ends_number r \<Longrightarrow> match_frac r = ([], r)"
  by (cases r) (auto simp: match_frac_def ends_number_def)

lemma match_exp_none: "ends_number r \<Longrightarrow> match_exp r = ([], r)"
  by (cases r) (auto simp: match_exp_def ends_number_def)

lemma scan_number_int_repr:
  "ends_number r \<Longrightarrow> scan_number pf (int_repr i @ r) = Inr (JInt i, r)"
  by (simp add: scan_number_def match_number_def match_integer_int_repr match_frac_none
        match_exp_none parse_int_int_repr)

lemma int_repr_first:
  "\<exists>d ds. int_repr i = d # ds \<and> (d = 45 \<or> is_digit d)"
  using nat_digits_first [of "nat i"] nat_digits_first [of "nat (- i)"]
  by (auto simp: int_repr_def is_digit_def split: if_splits)

subsection \<open>The shape of the written document\<close>

lemma scalar_iterencode:
  "scalar_text E v = Some t \<Longrightarrow> iterencode E lvl v = [t]"
  by (cases v) auto

lemma concat_list_items:
  "concat (with_bufs buf sep
     (map (\<lambda>x b. case scalar_text (dump_encoder L) x of
                    Some t \<Rightarrow> [b @ t]
                  | None \<Rightarrow> b # iterencode (dump_encoder L) lvl x) (x # xs))) =
   buf @ dump_text L lvl x @ concat (map (\<lambda>y. sep @ dump_text L lvl y) xs)"
proof (induction xs arbitrary: x buf)
  case Nil
  show ?case
    by (auto simp: dump_text_def scalar_iterencode split: option.splits)
next
  case (Cons y ys)
  show ?case
    using Cons [where x = y and buf = sep]
    by (auto simp: dump_text_def scalar_iterencode split: option.splits)
qed

lemma concat_dict_items:
  "concat (with_bufs [] sep
     (map (\<lambda>(k, v) b. (if b = [] then [] else [b]) @
                       [string_encoder (dump_encoder L) k, key_separator] @
                       (case scalar_text (dump_encoder L) v of
                          Some t \<Rightarrow> [t]
                        | None \<Rightarrow> iterencode (dump_encoder L) lvl v)) ((k, v) # kvs))) =
   encode_basestring k @ key_separator @ dump_text L lvl v @
   concat (map (\<lambda>(k, v). sep @ encode_basestring k @ key_separator @ dump_text L lvl v) kvs)"
proof -
  have item: "concat ((if b = [] then [] else [b]) @
                       [string_encoder (dump_encoder L) k, key_separator] @
                       (case scalar_text (dump_encoder L) v of
                          Some t \<Rightarrow> [t]
                        | None \<Rightarrow> iterencode (dump_encoder L) lvl v)) =
              b @ encode_basestring k @ key_separator @ dump_text L lvl v" for b k v
    by (auto simp: dump_text_def scalar_iterencode split: option.splits)
  have "concat (with_bufs b sep
     (map (\<lambda>(k, v) b. (if b = [] then [] else [b]) @
                       [string_encoder (dump_encoder L) k, key_separator] @
                       (case scalar_text (dump_encoder L) v of
                          Some t \<Rightarrow> [t]
                        | None \<Rightarrow> iterencode (dump_encoder L) lvl v)) ((k, v) # kvs))) =
   b @ encode_basestring k @ key_separator @ dump_text L lvl v @
   concat (map (\<lambda>(k, v). sep @ encode_basestring k @ key_separator @ dump_text L lvl v) kvs)" for b
  proof (induction kvs arbitrary: k v b)
    case Nil
    show ?case
      using item [of b k v] by simp
  next
    case (Cons kv kvs)
    obtain k' v' where kv: "kv = (k', v')" by (cases kv)
    show ?case
      using Cons [where b = sep and k = k' and v = v'] item [of b k v] by (simp add: kv)
  qed
  from this [of "[]"] show ?thesis
    by simp
qed

lemma dump_text_Arr:
  "dump_text L lvl (JArr []) = ustr ''[]''"
  "dump_text L lvl (JArr (x # xs)) =
     ustr ''['' @ newline_indent (dump_encoder L) (lvl + 1) @ dump_text L (lvl + 1) x @
     concat (map (\<lambda>y. (ustr '','' @ newline_indent (dump_encoder L) (lvl + 1)) @ dump_text L (lvl + 1) y) xs) @
     newline_indent (dump_encoder L) lvl @ ustr '']''"
  using concat_list_items [of "ustr ''['' @ newline_indent (dump_encoder L) (lvl + 1)"
      "ustr '','' @ newline_indent (dump_encoder L) (lvl + 1)" L "lvl + 1" x xs]
  by (simp_all add: dump_text_def [of L lvl] item_separator_def)

lemma dump_text_Obj:
  "dump_text L lvl (JObj []) = ustr ''{}''"
  "dump_text L lvl (JObj ((k, v) # kvs)) =
     ustr ''{'' @ newline_indent (dump_encoder L) (lvl + 1) @
     encode_basestring k @ key_separator @ dump_text L (lvl + 1) v @
     concat (map (\<lambda>(k, v). (ustr '','' @ newline_indent (dump_encoder L) (lvl + 1)) @
                   encode_basestring k @ key_separator @ dump_text L (lvl + 1) v) kvs) @
     newline_indent (dump_encoder L) lvl @ ustr ''}''"
  using concat_dict_items [of "ustr '','' @ newline_indent (dump_encoder L) (lvl + 1)" L "lvl + 1" k v kvs]
  by (simp_all add: dump_text_def [of L lvl] item_separator_def)

lemma dump_text_scalar:
  "dump_text L lvl JNull = ustr ''null''"
  "dump_text L lvl (JBool b) = (if b then ustr ''true'' else ustr ''false'')"
  "dump_text L lvl (JInt i) = int_repr i"
  "dump_text L lvl (JStr s) = encode_basestring s"
  by (simp_all add: dump_text_def)


subsection \<open>The decoder on the written document\<close>

text \<open>
  Whatever the bound on the nested calls, the decoder either reaches the bound or reads
  back the value that was written.
\<close>

lemma skip_ws_ws: "list_all is_ws w \<Longrightarrow> skip_ws (w @ s) = skip_ws s"
  by (simp add: skip_ws_def list_all_iff dropWhile_append2)

lemma skip_ws_start: "\<not> is_ws c \<Longrightarrow> skip_ws (c # s) = c # s"
  by (simp add: skip_ws_def)

lemma newline_indent_ws: "list_all is_ws (newline_indent (dump_encoder L) lvl)"
  by (simp add: newline_indent_def is_ws_def list_all_iff)

lemma value_start_not_ws: "value_start c \<Longrightarrow> \<not> is_ws c"
  by (auto simp: value_start_def is_ws_def is_digit_def)

lemma dump_text_first:
  "float_free v \<Longrightarrow> \<exists>c cs. dump_text L lvl v = c # cs \<and> value_start c"
proof (cases v)
  case (JInt i)
  then show ?thesis
    using int_repr_first [of i] by (auto simp: dump_text_scalar value_start_def)
next
  case (JArr xs)
  then show ?thesis
    by (cases xs) (auto simp: dump_text_Arr ustr_def value_start_def)
next
  case (JObj kvs)
  then show ?thesis
    by (cases kvs) (auto simp: dump_text_Obj ustr_def value_start_def)
qed (auto simp: dump_text_scalar ustr_def value_start_def encode_basestring_body)

lemma skip_ws_dump_text:
  "float_free v \<Longrightarrow> list_all is_ws w \<Longrightarrow> skip_ws (w @ dump_text L lvl v @ r) = dump_text L lvl v @ r"
  using dump_text_first [of v L lvl]
  by (auto simp: skip_ws_ws skip_ws_start value_start_not_ws)

lemma ends_number_ws: "list_all is_ws w \<Longrightarrow> ends_number (w @ 93 # r)" "list_all is_ws w \<Longrightarrow> ends_number (w @ 125 # r)"
  by (cases w; auto simp: ends_number_def is_ws_def is_digit_def)+

lemma ends_number_comma: "ends_number (44 # r)"
  by (simp add: ends_number_def is_digit_def)

lemma parse_array_items:
  assumes elem: "\<And>x n r. x \<in> set (x0 # xs) \<Longrightarrow> ends_number r \<Longrightarrow>
      scan_once pf n (dump_text L lvl x @ r) = None \<or>
      scan_once pf n (dump_text L lvl x @ r) = Some (Inr (x, r))"
    and ff: "list_all float_free (x0 # xs)"
    and ws: "list_all is_ws w" "list_all is_ws w'"
  shows "parse_array pf n (dump_text L lvl x0 @
           concat (map (\<lambda>y. (44 # w) @ dump_text L lvl y) xs) @ w' @ 93 # r) = None \<or>
         parse_array pf n (dump_text L lvl x0 @
           concat (map (\<lambda>y. (44 # w) @ dump_text L lvl y) xs) @ w' @ 93 # r) = Some (Inr (x0 # xs, r))"
  using elem ff
proof (induction xs arbitrary: x0 n)
  case Nil
  show ?case
  proof (cases n)
    case 0
    then show ?thesis by simp
  next
    case (Suc m)
    have "ends_number (w' @ 93 # r)"
      using ws(2) by (rule ends_number_ws)
    then consider "scan_once pf m (dump_text L lvl x0 @ w' @ 93 # r) = None"
      | "scan_once pf m (dump_text L lvl x0 @ w' @ 93 # r) = Some (Inr (x0, w' @ 93 # r))"
      using Nil.prems(1) [of x0 "w' @ 93 # r" m] by auto
    then show ?thesis
    proof cases
      case 1
      then show ?thesis by (simp add: Suc)
    next
      case 2
      have "skip_ws (w' @ 93 # r) = 93 # r"
        using ws(2) by (simp add: skip_ws_ws skip_ws_start is_ws_def)
      then show ?thesis
        using 2 by (simp add: Suc)
    qed
  qed
next
  case (Cons y ys)
  let ?tail = "concat (map (\<lambda>y. (44 # w) @ dump_text L lvl y) ys) @ w' @ 93 # r"
  show ?case
  proof (cases n)
    case 0
    then show ?thesis by simp
  next
    case (Suc m)
    have "ends_number (44 # w @ dump_text L lvl y @ ?tail)"
      by (rule ends_number_comma)
    then consider "scan_once pf m (dump_text L lvl x0 @ 44 # w @ dump_text L lvl y @ ?tail) = None"
      | "scan_once pf m (dump_text L lvl x0 @ 44 # w @ dump_text L lvl y @ ?tail) =
          Some (Inr (x0, 44 # w @ dump_text L lvl y @ ?tail))"
      using Cons.prems(1) [of x0 "44 # w @ dump_text L lvl y @ ?tail" m] by auto
    then show ?thesis
    proof cases
      case 1
      then show ?thesis by (simp add: Suc)
    next
      case 2
      have skip: "skip_ws (44 # w @ dump_text L lvl y @ ?tail) = 44 # w @ dump_text L lvl y @ ?tail"
        by (simp add: skip_ws_start is_ws_def)
      have skip': "skip_ws (w @ dump_text L lvl y @ ?tail) = dump_text L lvl y @ ?tail"
        using Cons.prems(2) ws(1) by (simp add: skip_ws_dump_text)
      have "parse_array pf m (dump_text L lvl y @ ?tail) = None \<or>
            parse_array pf m (dump_text L lvl y @ ?tail) = Some (Inr (y # ys, r))"
        using Cons.prems by (intro Cons.IH) auto
      then show ?thesis
        using 2 skip skip' by (auto simp: Suc)
    qed
  qed
qed


lemma parse_object_items:
  assumes elem: "\<And>k v n r. (k, v) \<in> set ((k0, v0) # kvs) \<Longrightarrow> ends_number r \<Longrightarrow>
      scan_once pf n (dump_text L lvl v @ r) = None \<or>
      scan_once pf n (dump_text L lvl v @ r) = Some (Inr (v, r))"
    and ff: "list_all (\<lambda>(k, v). float_free v) ((k0, v0) # kvs)"
    and ws: "list_all is_ws w" "list_all is_ws w'"
  shows "parse_object pf n (concat (map escape_char k0) @ 34 # key_separator @ dump_text L lvl v0 @
           concat (map (\<lambda>(k, v). (44 # w) @ encode_basestring k @ key_separator @ dump_text L lvl v) kvs) @
           w' @ 125 # r) = None \<or>
         parse_object pf n (concat (map escape_char k0) @ 34 # key_separator @ dump_text L lvl v0 @
           concat (map (\<lambda>(k, v). (44 # w) @ encode_basestring k @ key_separator @ dump_text L lvl v) kvs) @
           w' @ 125 # r) = Some (Inr ((k0, v0) # kvs, r))"
  using elem ff
proof (induction kvs arbitrary: k0 v0 n)
  case Nil
  show ?case
  proof (cases n)
    case 0
    then show ?thesis by simp
  next
    case (Suc m)
    have key: "scanstring (concat (map escape_char k0) @ 34 # key_separator @ dump_text L lvl v0 @ w' @ 125 # r) =
        Inr (k0, key_separator @ dump_text L lvl v0 @ w' @ 125 # r)"
      by (rule scanstring_body)
    have colon: "skip_ws (key_separator @ dump_text L lvl v0 @ w' @ 125 # r) =
        58 # 32 # dump_text L lvl v0 @ w' @ 125 # r"
      by (simp add: key_separator_def ustr_def skip_ws_start is_ws_def)
    have val: "skip_ws (32 # dump_text L lvl v0 @ w' @ 125 # r) = dump_text L lvl v0 @ w' @ 125 # r"
      using Nil.prems(2) skip_ws_dump_text [of v0 "[32]" L lvl] by (simp add: is_ws_def)
    have "ends_number (w' @ 125 # r)"
      using ws(2) by (rule ends_number_ws)
    then consider "scan_once pf m (dump_text L lvl v0 @ w' @ 125 # r) = None"
      | "scan_once pf m (dump_text L lvl v0 @ w' @ 125 # r) = Some (Inr (v0, w' @ 125 # r))"
      using Nil.prems(1) [of k0 v0 "w' @ 125 # r" m] by auto
    then show ?thesis
    proof cases
      case 1
      then show ?thesis
        using key colon val by (simp add: Suc)
    next
      case 2
      have "skip_ws (w' @ 125 # r) = 125 # r"
        using ws(2) by (simp add: skip_ws_ws skip_ws_start is_ws_def)
      then show ?thesis
        using 2 key colon val by (simp add: Suc)
    qed
  qed
next
  case (Cons kv kvs)
  obtain k1 v1 where kv: "kv = (k1, v1)" by (cases kv)
  let ?tail = "concat (map (\<lambda>(k, v). (44 # w) @ encode_basestring k @ key_separator @ dump_text L lvl v) kvs) @
           w' @ 125 # r"
  let ?next = "concat (map escape_char k1) @ 34 # key_separator @ dump_text L lvl v1 @ ?tail"
  show ?case
  proof (cases n)
    case 0
    then show ?thesis by simp
  next
    case (Suc m)
    have key: "scanstring (concat (map escape_char k0) @ 34 # key_separator @ dump_text L lvl v0 @ 44 # w @ 34 # ?next) =
        Inr (k0, key_separator @ dump_text L lvl v0 @ 44 # w @ 34 # ?next)"
      by (rule scanstring_body)
    have colon: "skip_ws (key_separator @ dump_text L lvl v0 @ 44 # w @ 34 # ?next) =
        58 # 32 # dump_text L lvl v0 @ 44 # w @ 34 # ?next"
      by (simp add: key_separator_def ustr_def skip_ws_start is_ws_def)
    have val: "skip_ws (32 # dump_text L lvl v0 @ 44 # w @ 34 # ?next) = dump_text L lvl v0 @ 44 # w @ 34 # ?next"
      using Cons.prems(2) skip_ws_dump_text [of v0 "[32]" L lvl] by (simp add: is_ws_def)
    have "ends_number (44 # w @ 34 # ?next)"
      by (rule ends_number_comma)
    then consider "scan_once pf m (dump_text L lvl v0 @ 44 # w @ 34 # ?next) = None"
      | "scan_once pf m (dump_text L lvl v0 @ 44 # w @ 34 # ?next) = Some (Inr (v0, 44 # w @ 34 # ?next))"
      using Cons.prems(1) [of k0 v0 "44 # w @ 34 # ?next" m] by auto
    then show ?thesis
    proof cases
      case 1
      then show ?thesis
        using key colon val by (simp add: Suc kv encode_basestring_body)
    next
      case 2
      have skip: "skip_ws (44 # w @ 34 # ?next) = 44 # w @ 34 # ?next"
        by (simp add: skip_ws_start is_ws_def)
      have skip': "skip_ws (w @ 34 # ?next) = 34 # ?next"
        using ws(1) by (simp add: skip_ws_ws skip_ws_start is_ws_def)
      have "parse_object pf m ?next = None \<or> parse_object pf m ?next = Some (Inr ((k1, v1) # kvs, r))"
        using Cons.prems by (intro Cons.IH) (auto simp: kv)
      then show ?thesis
        using 2 key colon val skip skip' by (auto simp: Suc kv encode_basestring_body)
    qed
  qed
qed

lemma dict_set_fresh: "k \<notin> fst ` set d \<Longrightarrow> dict_set d k v = d @ [(k, v)]"
  by (induction d) auto

lemma dict_of_pairs_distinct:
  "distinct (map fst pairs) \<Longrightarrow> dict_of_pairs pairs = pairs"
proof -
  have "distinct (map fst (d @ pairs)) \<Longrightarrow>
        foldl (\<lambda>d kv. dict_set d (fst kv) (snd kv)) d pairs = d @ pairs" for d
  proof (induction pairs arbitrary: d)
    case Nil
    show ?case by simp
  next
    case (Cons kv pairs)
    have "dict_set d (fst kv) (snd kv) = d @ [kv]"
      using Cons.prems by (intro dict_set_fresh [THEN trans]) auto
    then show ?case
      using Cons.IH [of "d @ [kv]"] Cons.prems by simp
  qed
  from this [of "[]"] show "distinct (map fst pairs) \<Longrightarrow> dict_of_pairs pairs = pairs"
    by (simp add: dict_of_pairs_def)
qed


lemma scan_dump_text:
  "float_free v \<Longrightarrow> py_value v \<Longrightarrow> ends_number r \<Longrightarrow>
   scan_once pf n (dump_text L lvl v @ r) = None \<or>
   scan_once pf n (dump_text L lvl v @ r) = Some (Inr (v, r))"
proof (induction v arbitrary: n lvl r)
  case JNull
  then show ?case
    by (cases n) (simp_all add: dump_text_scalar ustr_def)
next
  case (JBool b)
  then show ?case
    by (cases n) (simp_all add: dump_text_scalar ustr_def)
next
  case (JInt i)
  obtain d ds where first: "int_repr i = d # ds" and d: "d = 45 \<or> is_digit d"
    using int_repr_first [of i] by blast
  have "scan_once pf (Suc m) (int_repr i @ r) = Some (scan_number pf (int_repr i @ r))" for m
    using d by (auto simp: first ustr_def is_digit_def)
  then show ?case
    using JInt.prems by (cases n) (simp_all add: dump_text_scalar scan_number_int_repr)
next
  case (JFloat x)
  then show ?case by simp
next
  case (JStr s)
  show ?case
    by (cases n) (simp_all add: dump_text_scalar encode_basestring_body scanstring_body)
next
  case (JArr xs)
  show ?case
  proof (cases n)
    case 0
    then show ?thesis by simp
  next
    case (Suc m)
    show ?thesis
    proof (cases xs)
      case Nil
      then show ?thesis
        by (simp add: Suc dump_text_Arr ustr_def skip_ws_start is_ws_def)
    next
      case (Cons x0 xs')
      let ?w = "newline_indent (dump_encoder L) (lvl + 1)"
      let ?w' = "newline_indent (dump_encoder L) lvl"
      let ?items = "dump_text L (lvl + 1) x0 @
           concat (map (\<lambda>y. (44 # ?w) @ dump_text L (lvl + 1) y) xs') @ ?w' @ 93 # r"
      have doc: "dump_text L lvl (JArr xs) @ r = 91 # ?w @ ?items"
        by (simp add: Cons dump_text_Arr ustr_def)
      have ff: "list_all float_free (x0 # xs')"
        using JArr.prems(1) by (simp add: Cons)
      obtain c cs where first: "dump_text L (lvl + 1) x0 = c # cs" and c: "value_start c"
        using dump_text_first [of x0 L "lvl + 1"] ff by auto
      have skip: "skip_ws (?w @ ?items) = ?items"
        using ff skip_ws_dump_text [of x0 ?w L "lvl + 1"] by (simp add: newline_indent_ws)
      have "c \<noteq> 93"
        using c by (auto simp: value_start_def is_digit_def)
      have items: "parse_array pf m ?items = None \<or> parse_array pf m ?items = Some (Inr (x0 # xs', r))"
      proof (rule parse_array_items [OF _ ff newline_indent_ws newline_indent_ws])
        fix x n r
        assume "x \<in> set (x0 # xs')" and "ends_number r"
        then show "scan_once pf n (dump_text L (lvl + 1) x @ r) = None \<or>
                   scan_once pf n (dump_text L (lvl + 1) x @ r) = Some (Inr (x, r))"
          using JArr.IH [of x r n "lvl + 1"] JArr.prems(1,2) by (auto simp: Cons list_all_iff)
      qed
      have "scan_once pf (Suc m) (91 # ?w @ ?items) =
          (case parse_array pf m ?items of
             None \<Rightarrow> None
           | Some (Inl e) \<Rightarrow> Some (Inl e)
           | Some (Inr (values, rest)) \<Rightarrow> Some (Inr (JArr values, rest)))"
        using \<open>c \<noteq> 93\<close> skip first by simp
      then show ?thesis
        using items unfolding Suc doc by (auto simp: Cons)
    qed
  qed
next
  case (JObj kvs)
  show ?case
  proof (cases n)
    case 0
    then show ?thesis by simp
  next
    case (Suc m)
    show ?thesis
    proof (cases kvs)
      case Nil
      then show ?thesis
        by (simp add: Suc dump_text_Obj ustr_def skip_ws_start is_ws_def dict_of_pairs_def)
    next
      case (Cons kv kvs')
      obtain k0 v0 where kv: "kv = (k0, v0)" by (cases kv)
      let ?w = "newline_indent (dump_encoder L) (lvl + 1)"
      let ?w' = "newline_indent (dump_encoder L) lvl"
      let ?items = "concat (map escape_char k0) @ 34 # key_separator @ dump_text L (lvl + 1) v0 @
           concat (map (\<lambda>(k, v). (44 # ?w) @ encode_basestring k @ key_separator @ dump_text L (lvl + 1) v) kvs') @
           ?w' @ 125 # r"
      have doc: "dump_text L lvl (JObj kvs) @ r = 123 # ?w @ 34 # ?items"
        by (simp add: Cons kv dump_text_Obj ustr_def encode_basestring_body)
      have ff: "list_all (\<lambda>(k, v). float_free v) ((k0, v0) # kvs')"
        using JObj.prems(1) by (simp add: Cons kv)
      have skip: "skip_ws (?w @ 34 # ?items) = 34 # ?items"
        by (simp add: skip_ws_ws newline_indent_ws skip_ws_start is_ws_def)
      have items: "parse_object pf m ?items = None \<or>
                   parse_object pf m ?items = Some (Inr ((k0, v0) # kvs', r))"
      proof (rule parse_object_items [OF _ ff newline_indent_ws newline_indent_ws])
        fix k v n r
        assume mem: "(k, v) \<in> set ((k0, v0) # kvs')" and r: "ends_number r"
        have "(k, v) \<in> set kvs"
          using mem by (simp add: Cons kv)
        moreover from this have "float_free v" "py_value v"
          using JObj.prems(1,2) by (auto simp: list_all_iff)
        ultimately show "scan_once pf n (dump_text L (lvl + 1) v @ r) = None \<or>
                   scan_once pf n (dump_text L (lvl + 1) v @ r) = Some (Inr (v, r))"
          using JObj.IH [of "(k, v)" v r n "lvl + 1"] r by simp
      qed
      have "dict_of_pairs ((k0, v0) # kvs') = kvs"
        using JObj.prems(2) dict_of_pairs_distinct [of kvs] by (simp add: Cons kv)
      moreover have "scan_once pf (Suc m) (123 # ?w @ 34 # ?items) =
          (case parse_object pf m ?items of
             None \<Rightarrow> None
           | Some (Inl e) \<Rightarrow> Some (Inl e)
           | Some (Inr (pairs, rest)) \<Rightarrow> Some (Inr (JObj (dict_of_pairs pairs), rest)))"
        using skip by simp
      ultimately show ?thesis
        using items unfolding Suc doc by auto
    qed
  qed
qed

subsection \<open>The bound on the nested calls is never reached\<close>

text \<open>
  Every successful call of the decoder consumes some of the text, so a bound of twice the
  length of the text plus one cannot be reached.
\<close>

lemma skip_ws_length: "length (skip_ws s) \<le> length s"
  by (simp add: skip_ws_def length_dropWhile_le)

lemma skip_ws_Cons_length: "skip_ws s = d # ds \<Longrightarrow> length ds < length s"
  using skip_ws_length [of s] by simp

lemma add_char_rest: "add_char c x = Inr (t, r) \<Longrightarrow> \<exists>t'. x = Inr (t', r)"
  by (auto simp: add_char_def split: sum.splits)

lemma scanstring_consumes: "scanstring s = Inr (t, r) \<Longrightarrow> length r < length s"
proof (induction s arbitrary: t rule: length_induct)
  case (1 s)
  have IH: "scanstring s' = Inr (t', r) \<Longrightarrow> length s' < length s \<Longrightarrow> length r < length s" for s' t'
    using "1.IH" by (meson less_trans)
  show ?case
    using "1.prems"
    by (cases s) (auto split: if_splits list.splits option.splits dest!: add_char_rest dest: IH)
qed


lemma match_digits_length: "length (snd (match_digits s)) \<le> length s"
  by (simp add: match_digits_def length_dropWhile_le)

lemma match_frac_length: "length (snd (match_frac s)) \<le> length s"
  using match_digits_length [of "tl s"]
  by (cases s) (auto simp: match_frac_def)

lemma match_exp_length: "length (snd (match_exp s)) \<le> length s"
proof (cases s)
  case Nil
  then show ?thesis by (simp add: match_exp_def)
next
  case (Cons e t)
  show ?thesis
  proof (cases t)
    case Nil
    then show ?thesis
      using match_digits_length [of "[]"] by (auto simp: match_exp_def Cons)
  next
    case (Cons x u)
    then show ?thesis
      using match_digits_length [of t] match_digits_length [of u]
      by (auto simp: match_exp_def \<open>s = e # t\<close>)
  qed
qed

lemma match_integer_length:
  assumes "match_integer s = Some (i, r)"
  shows "length r < length s"
proof (cases s)
  case Nil
  then show ?thesis
    using assms by (simp add: match_integer_def)
next
  case (Cons x u)
  show ?thesis
  proof (cases u)
    case Nil
    then show ?thesis
      using assms match_digits_length [of "[]"]
      by (auto simp: match_integer_def Cons split: if_splits)
  next
    case (Cons y z)
    then show ?thesis
      using assms match_digits_length [of u] match_digits_length [of z]
      by (auto simp: match_integer_def \<open>s = x # u\<close> split: if_splits)
  qed
qed

lemma take_literal_length: "take k s = lit \<Longrightarrow> length lit = k \<Longrightarrow> 0 < k \<Longrightarrow> length (drop k s) < length s"
  by (cases "k \<le> length s") auto

lemma scan_number_consumes: "scan_number pf s = Inr (v, r) \<Longrightarrow> length r < length s"
proof (cases "match_integer s")
  case None
  assume "scan_number pf s = Inr (v, r)"
  then consider "take 3 s = ustr ''NaN''" "r = drop 3 s"
    | "take 8 s = ustr ''Infinity''" "r = drop 8 s"
    | "take 9 s = ustr ''-Infinity''" "r = drop 9 s"
    using None by (auto simp: scan_number_def match_number_def split: if_splits)
  then show ?thesis
    using take_literal_length [of 3 s "ustr ''NaN''"] take_literal_length [of 8 s "ustr ''Infinity''"]
      take_literal_length [of 9 s "ustr ''-Infinity''"]
    by cases (simp_all add: ustr_def)
next
  case (Some ir)
  obtain i r0 where ir: "ir = (i, r0)" by (cases ir)
  assume "scan_number pf s = Inr (v, r)"
  then have "r = snd (match_exp (snd (match_frac r0)))"
    using Some
    by (auto simp: scan_number_def match_number_def ir split: prod.splits if_splits)
  moreover have "length r0 < length s"
    using Some ir by (auto dest: match_integer_length)
  ultimately show ?thesis
    using match_exp_length [of "snd (match_frac r0)"] match_frac_length [of r0] by simp
qed

lemma scan_consumes:
  "(\<forall>s v r. scan_once pf n s = Some (Inr (v, r)) \<longrightarrow> length r < length s) \<and>
   (\<forall>s vs r. parse_array pf n s = Some (Inr (vs, r)) \<longrightarrow> length r < length s) \<and>
   (\<forall>s ps r. parse_object pf n s = Some (Inr (ps, r)) \<longrightarrow> length r < length s)"
proof (induction n)
  case 0
  show ?case by simp
next
  case (Suc n)
  have so: "scan_once pf n s = Some (Inr (v, r)) \<Longrightarrow> length s \<le> k \<Longrightarrow> length r < k" for s v r k
    using Suc by (meson less_le_trans)
  have pa: "parse_array pf n s = Some (Inr (vs, r)) \<Longrightarrow> length s \<le> k \<Longrightarrow> length r < k" for s vs r k
    using Suc by (meson less_le_trans)
  have po: "parse_object pf n s = Some (Inr (ps, r)) \<Longrightarrow> length s \<le> k \<Longrightarrow> length r < k" for s ps r k
    using Suc by (meson less_le_trans)
  have "length r < length s" if "scan_once pf (Suc n) s = Some (Inr (v, r))" for s v r
    using that
    by (cases s)
       (auto split: if_splits list.splits sum.splits option.splits prod.splits
             dest!: skip_ws_Cons_length scanstring_consumes scan_number_consumes
             dest: pa po simp: less_Suc_eq_le)
  moreover have "length r < length s" if asm: "parse_array pf (Suc n) s = Some (Inr (vs, r))" for s vs r
  proof -
    from asm obtain v r1 where v: "scan_once pf n s = Some (Inr (v, r1))"
      by (auto split: option.splits sum.splits)
    then have r1: "length r1 < length s"
      using so by blast
    from asm v obtain d ds where d: "skip_ws r1 = d # ds"
      by (auto split: list.splits)
    then have ds: "length ds < length r1"
      by (rule skip_ws_Cons_length)
    show ?thesis
    proof (cases "d = 93")
      case True
      then show ?thesis
        using asm v d ds r1 by simp
    next
      case False
      then obtain vs' where "parse_array pf n (skip_ws ds) = Some (Inr (vs', r))"
        using asm v d by (auto split: if_splits option.splits sum.splits prod.splits)
      then have "length r < length (skip_ws ds)"
        using Suc by blast
      then show ?thesis
        using skip_ws_length [of ds] ds r1 by simp
    qed
  qed
  moreover have "length r < length s" if asm: "parse_object pf (Suc n) s = Some (Inr (ps, r))" for s ps r
  proof -
    from asm obtain key r1 where key: "scanstring s = Inr (key, r1)"
      by (auto split: sum.splits)
    then have r1: "length r1 < length s"
      by (rule scanstring_consumes)
    from asm key obtain r2 where c: "skip_ws r1 = 58 # r2"
      by (auto split: list.splits if_splits)
    then have r2: "length r2 < length r1"
      by (rule skip_ws_Cons_length)
    from asm key c obtain v r3 where v: "scan_once pf n (skip_ws r2) = Some (Inr (v, r3))"
      by (auto split: option.splits sum.splits)
    have r3: "length r3 < length r2"
      by (rule so [OF v skip_ws_length])
    from asm key c v obtain d r4 where d: "skip_ws r3 = d # r4"
      by (auto split: list.splits)
    then have r4: "length r4 < length r3"
      by (rule skip_ws_Cons_length)
    show ?thesis
    proof (cases "d = 125")
      case True
      then show ?thesis
        using asm key c v d r1 r2 r3 r4 by simp
    next
      case False
      then obtain r5 where q: "skip_ws r4 = 34 # r5"
        using asm key c v d by (auto split: if_splits list.splits)
      then have r5: "length r5 < length r4"
        by (rule skip_ws_Cons_length)
      obtain ps' where "parse_object pf n r5 = Some (Inr (ps', r))"
        using asm key c v d q False by (auto split: if_splits option.splits sum.splits prod.splits)
      then have "length r < length r5"
        using Suc by blast
      then show ?thesis
        using r1 r2 r3 r4 r5 by simp
    qed
  qed
  ultimately show ?case
    by blast
qed


lemma scan_once_step:
  assumes pa: "\<And>s. 2 * length s + 2 \<le> n \<Longrightarrow> parse_array pf n s \<noteq> None"
    and po: "\<And>s. 2 * length s + 2 \<le> n \<Longrightarrow> parse_object pf n s \<noteq> None"
    and len: "2 * length s + 1 \<le> Suc n"
  shows "scan_once pf (Suc n) s \<noteq> None"
proof (cases s)
  case Nil
  then show ?thesis by simp
next
  case s: (Cons c cs)
  show ?thesis
  proof (cases "skip_ws cs")
    case Nil
    then show ?thesis
      by (simp add: s split: sum.splits prod.splits)
  next
    case (Cons d ds)
    have "length (d # ds) \<le> length cs"
      using skip_ws_length [of cs] Cons by simp
    then have "2 * length (d # ds) + 2 \<le> n"
      using len s by simp
    then have arr: "parse_array pf n (d # ds) \<noteq> None"
      by (rule pa)
    have "length ds < length cs"
      using Cons by (rule skip_ws_Cons_length)
    then have "2 * length ds + 2 \<le> n"
      using len s by simp
    then have obj: "parse_object pf n ds \<noteq> None"
      by (rule po)
    obtain ya yo where ya: "parse_array pf n (d # ds) = Some ya"
      and yo: "parse_object pf n ds = Some yo"
      using arr obj by auto
    consider "c = 34" | "c = 123" | "c = 91" | "c \<noteq> 34" "c \<noteq> 123" "c \<noteq> 91"
      by blast
    then show ?thesis
    proof cases
      case 1
      then show ?thesis
        by (simp add: s split: sum.splits prod.splits)
    next
      case 2
      then show ?thesis
        by (cases yo) (auto simp: s Cons yo)
    next
      case 3
      then show ?thesis
        by (cases ya) (auto simp: s Cons ya)
    next
      case 4
      then show ?thesis
        by (simp add: s)
    qed
  qed
qed


lemma parse_array_step:
  assumes so: "\<And>s. 2 * length s + 1 \<le> n \<Longrightarrow> scan_once pf n s \<noteq> None"
    and pa: "\<And>s. 2 * length s + 2 \<le> n \<Longrightarrow> parse_array pf n s \<noteq> None"
    and len: "2 * length s + 2 \<le> Suc n"
  shows "parse_array pf (Suc n) s \<noteq> None"
proof -
  have "scan_once pf n s \<noteq> None"
    using len by (intro so) simp
  then obtain x where x: "scan_once pf n s = Some x"
    by auto
  show ?thesis
  proof (cases x)
    case (Inl e)
    then show ?thesis by (simp add: x)
  next
    case (Inr vr)
    obtain v r where vr: "vr = (v, r)" by (cases vr)
    have r: "length r < length s"
      using scan_consumes [of pf n] x Inr vr by blast
    show ?thesis
    proof (cases "skip_ws r")
      case Nil
      then show ?thesis by (simp add: x Inr vr)
    next
      case (Cons d ds)
      have "length ds < length r"
        using Cons by (rule skip_ws_Cons_length)
      then have "2 * length (skip_ws ds) + 2 \<le> n"
        using skip_ws_length [of ds] len r by simp
      then have "parse_array pf n (skip_ws ds) \<noteq> None"
        by (rule pa)
      then obtain y where y: "parse_array pf n (skip_ws ds) = Some y"
        by auto
      show ?thesis
        by (cases y) (auto simp: x Inr vr Cons y)
    qed
  qed
qed

lemma parse_object_step:
  assumes so: "\<And>s. 2 * length s + 1 \<le> n \<Longrightarrow> scan_once pf n s \<noteq> None"
    and po: "\<And>s. 2 * length s + 2 \<le> n \<Longrightarrow> parse_object pf n s \<noteq> None"
    and len: "2 * length s + 2 \<le> Suc n"
  shows "parse_object pf (Suc n) s \<noteq> None"
proof (cases "scanstring s")
  case (Inl e)
  then show ?thesis by simp
next
  case key: (Inr kr)
  obtain k r1 where kr: "kr = (k, r1)" by (cases kr)
  have r1: "length r1 < length s"
    using key kr by (auto dest: scanstring_consumes)
  show ?thesis
  proof (cases "skip_ws r1")
    case Nil
    then show ?thesis by (simp add: key kr)
  next
    case c: (Cons c r2)
    have r2: "length r2 < length r1"
      using c by (rule skip_ws_Cons_length)
    have "2 * length (skip_ws r2) + 1 \<le> n"
      using skip_ws_length [of r2] len r1 r2 by simp
    then have "scan_once pf n (skip_ws r2) \<noteq> None"
      by (rule so)
    then obtain x where x: "scan_once pf n (skip_ws r2) = Some x"
      by auto
    show ?thesis
    proof (cases x)
      case (Inl e)
      then show ?thesis by (simp add: key kr c x)
    next
      case v: (Inr vr)
      obtain v r3 where vr: "vr = (v, r3)" by (cases vr)
      have r3: "length r3 < length (skip_ws r2)"
        using scan_consumes [of pf n] x v vr by blast
      show ?thesis
      proof (cases "skip_ws r3")
        case Nil
        then show ?thesis by (simp add: key kr c x v vr)
      next
        case d: (Cons d r4)
        have r4: "length r4 < length r3"
          using d by (rule skip_ws_Cons_length)
        show ?thesis
        proof (cases "skip_ws r4")
          case Nil
          then show ?thesis by (simp add: key kr c x v vr d)
        next
          case q: (Cons q r5)
          have "length r5 < length r4"
            using q by (rule skip_ws_Cons_length)
          then have "2 * length r5 + 2 \<le> n"
            using skip_ws_length [of r2] len r1 r2 r3 r4 by simp
          then have "parse_object pf n r5 \<noteq> None"
            by (rule po)
          then obtain y where y: "parse_object pf n r5 = Some y"
            by auto
          show ?thesis
            by (cases y) (auto simp: key kr c x v vr d q y)
        qed
      qed
    qed
  qed
qed

lemma scan_enough:
  "(\<forall>s. 2 * length s + 1 \<le> n \<longrightarrow> scan_once pf n s \<noteq> None) \<and>
   (\<forall>s. 2 * length s + 2 \<le> n \<longrightarrow> parse_array pf n s \<noteq> None) \<and>
   (\<forall>s. 2 * length s + 2 \<le> n \<longrightarrow> parse_object pf n s \<noteq> None)"
proof (induction n)
  case 0
  show ?case by simp
next
  case (Suc n)
  show ?case
    using Suc scan_once_step [of n pf] parse_array_step [of n pf] parse_object_step [of n pf]
    by blast
qed

lemma scan_once_enough: "scan_once pf (2 * length s + 1) (skip_ws s) \<noteq> None"
proof -
  have "2 * length (skip_ws s) + 1 \<le> 2 * length s + 1"
    using skip_ws_length [of s] by simp
  then show ?thesis
    using scan_enough [of "2 * length s + 1" pf] by blast
qed

text \<open>
  The decoder raises nothing but \<open>JSONDecodeError\<close>, so \<open>loads\<close> never answers
  \<open>RecursionError\<close>.
\<close>

lemma add_char_error: "add_char c x = Inl e \<Longrightarrow> x = Inl e"
  by (auto simp: add_char_def split: sum.splits)

lemma scanstring_error: "scanstring s = Inl e \<Longrightarrow> e = JSONDecodeError"
proof (induction s rule: length_induct)
  case (1 s)
  have IH: "scanstring s' = Inl e \<Longrightarrow> length s' < length s \<Longrightarrow> e = JSONDecodeError" for s'
    using "1.IH" by blast
  show ?case
    using "1.prems"
    by (cases s) (auto split: if_splits list.splits option.splits dest!: add_char_error dest: IH)
qed

lemma scan_number_error: "scan_number pf s = Inl e \<Longrightarrow> e = JSONDecodeError"
  by (auto simp: scan_number_def split: option.splits prod.splits if_splits)

lemma scan_once_error_step:
  assumes pa: "\<And>s e. parse_array pf n s = Some (Inl e) \<Longrightarrow> e = JSONDecodeError"
    and po: "\<And>s e. parse_object pf n s = Some (Inl e) \<Longrightarrow> e = JSONDecodeError"
    and res: "scan_once pf (Suc n) s = Some (Inl e)"
  shows "e = JSONDecodeError"
proof (cases s)
  case Nil
  then show ?thesis using res by simp
next
  case s: (Cons c cs)
  consider "c = 34" | "c = 123" | "c = 91" | "c \<noteq> 34" "c \<noteq> 123" "c \<noteq> 91"
    by blast
  then show ?thesis
  proof cases
    case 1
    then show ?thesis
      using res by (auto simp: s split: sum.splits prod.splits dest: scanstring_error)
  next
    case 2
    then show ?thesis
      using res
      by (cases "skip_ws cs")
         (auto simp: s split: if_splits option.splits sum.splits prod.splits dest: po)
  next
    case 3
    then show ?thesis
      using res
      by (cases "skip_ws cs")
         (auto simp: s split: if_splits option.splits sum.splits prod.splits dest: pa)
  next
    case 4
    then show ?thesis
      using res by (auto simp: s split: if_splits dest: scan_number_error)
  qed
qed


lemma parse_array_error_step:
  assumes so: "\<And>s e. scan_once pf n s = Some (Inl e) \<Longrightarrow> e = JSONDecodeError"
    and pa: "\<And>s e. parse_array pf n s = Some (Inl e) \<Longrightarrow> e = JSONDecodeError"
    and res: "parse_array pf (Suc n) s = Some (Inl e)"
  shows "e = JSONDecodeError"
proof (cases "scan_once pf n s")
  case None
  then show ?thesis using res by simp
next
  case (Some x)
  show ?thesis
  proof (cases x)
    case (Inl e')
    then show ?thesis
      using res so [of s e'] by (simp add: Some)
  next
    case (Inr vr)
    obtain v r where vr: "vr = (v, r)" by (cases vr)
    show ?thesis
      using res
      by (cases "skip_ws r")
         (auto simp: Some Inr vr split: if_splits option.splits sum.splits prod.splits dest: pa)
  qed
qed

lemma parse_object_error_step:
  assumes so: "\<And>s e. scan_once pf n s = Some (Inl e) \<Longrightarrow> e = JSONDecodeError"
    and po: "\<And>s e. parse_object pf n s = Some (Inl e) \<Longrightarrow> e = JSONDecodeError"
    and res: "parse_object pf (Suc n) s = Some (Inl e)"
  shows "e = JSONDecodeError"
proof (cases "scanstring s")
  case (Inl e')
  then show ?thesis
    using res scanstring_error [of s e'] by simp
next
  case key: (Inr kr)
  obtain k r1 where kr: "kr = (k, r1)" by (cases kr)
  show ?thesis
  proof (cases "skip_ws r1")
    case Nil
    then show ?thesis using res by (simp add: key kr)
  next
    case c: (Cons c r2)
    show ?thesis
    proof (cases "scan_once pf n (skip_ws r2)")
      case None
      then show ?thesis
        using res by (simp add: key kr c split: if_splits)
    next
      case (Some x)
      show ?thesis
      proof (cases x)
        case (Inl e')
        then show ?thesis
          using res so [of "skip_ws r2" e'] by (simp add: key kr c Some split: if_splits)
      next
        case v: (Inr vr)
        obtain v r3 where vr: "vr = (v, r3)" by (cases vr)
        show ?thesis
        proof (cases "skip_ws r3")
          case Nil
          then show ?thesis
            using res by (simp add: key kr c Some v vr split: if_splits)
        next
          case d: (Cons d r4)
          show ?thesis
            using res
            by (cases "skip_ws r4")
               (auto simp: key kr c Some v vr d
                     split: if_splits option.splits sum.splits prod.splits dest: po)
        qed
      qed
    qed
  qed
qed

lemma scan_errors:
  "(\<forall>s e. scan_once pf n s = Some (Inl e) \<longrightarrow> e = JSONDecodeError) \<and>
   (\<forall>s e. parse_array pf n s = Some (Inl e) \<longrightarrow> e = JSONDecodeError) \<and>
   (\<forall>s e. parse_object pf n s = Some (Inl e) \<longrightarrow> e = JSONDecodeError)"
proof (induction n)
  case 0
  show ?case by simp
next
  case (Suc n)
  show ?case
    using Suc scan_once_error_step [of pf n] parse_array_error_step [of pf n]
      parse_object_error_step [of pf n]
    by blast
qed

lemma loads_total: "loads pf s \<noteq> Inl RecursionError"
proof (cases "scan_once pf (2 * length s + 1) (skip_ws s)")
  case None
  then show ?thesis
    using scan_once_enough [of pf s] by simp
next
  case (Some x)
  show ?thesis
  proof (cases x)
    case (Inl e)
    then have "e = JSONDecodeError"
      using scan_errors [of pf "2 * length s + 1"] Some by blast
    then show ?thesis
      unfolding loads_def Some Inl by simp
  next
    case (Inr vr)
    then show ?thesis
      unfolding loads_def Some by (cases vr) simp
  qed
qed

subsection \<open>The round trip\<close>

lemma loads_dump_text:
  assumes "float_free v" and "py_value v"
  shows "loads pf (dump_text L 0 v) = Inr v"
proof -
  let ?s = "dump_text L 0 v"
  obtain c cs where first: "?s = c # cs" and c: "value_start c"
    using dump_text_first [OF assms(1), of L 0] by blast
  have "c \<noteq> 65279"
    using c by (auto simp: value_start_def is_digit_def)
  then have bom: "take 1 ?s \<noteq> [65279]"
    by (simp add: first)
  have skip: "skip_ws ?s = ?s"
    using c by (simp add: first skip_ws_start value_start_not_ws)
  define n where "n = 2 * length ?s + 1"
  have "scan_once pf n ?s \<noteq> None"
    using scan_once_enough [of pf ?s] unfolding skip n_def .
  moreover have "scan_once pf n (?s @ []) = None \<or> scan_once pf n (?s @ []) = Some (Inr (v, []))"
    using assms by (intro scan_dump_text) (simp_all add: ends_number_def)
  ultimately have res: "scan_once pf n ?s = Some (Inr (v, []))"
    by auto
  show ?thesis
    unfolding loads_def skip n_def [symmetric] res using bom by (simp add: skip_ws_def)
qed

lemma readList_dumps:
  assumes "float_free v" and "py_value v"
    and "catalog_file w = Some (dumps (dump_encoder L) v)"
  shows "readList L w = Inr v"
  using loads_dump_text [OF assms(1,2), of "float_parse L" L] assms(3)
  by (simp add: readList_def dumps_def dump_text_def)




section \<open>The freshness check as a state machine\<close>

lemma readList_present: "readList L w = Inr local \<Longrightarrow> catalog_file w \<noteq> None"
  by (auto simp: readList_def split: option.splits)

lemma downloadList_saves:
  assumes "doSyncRequest net k (ustr ''GET'') url = Inr (r, c)"
    and "py_value c" and "float_free c" and "encodable_value L c"
  shows "fst (downloadList L url net k No_fault w) = None"
    and "catalog_file (snd (downloadList L url net k No_fault w)) = Some (dumps (dump_encoder L) c)"
    and "readList L (snd (downloadList L url net k No_fault w)) = Inr c"
proof -
  have written: "downloadList L url net k No_fault w =
      (None, w\<lparr>catalog_file := Some (dumps (dump_encoder L) c)\<rparr>)"
    using write_chunks_encodable [OF encodable_iterencode [OF assms(4)], of 0] assms(1)
    by (simp add: downloadList_def dump_to_file_def dumps_def)
  show "fst (downloadList L url net k No_fault w) = None"
    and "catalog_file (snd (downloadList L url net k No_fault w)) = Some (dumps (dump_encoder L) c)"
    by (simp_all add: written)
  show "readList L (snd (downloadList L url net k No_fault w)) = Inr c"
    using assms(2,3) by (intro readList_dumps) (simp_all add: written)
qed

text \<open>
  Claim C5.  Without a local catalog file, \<open>checkUpdates\<close> fetches the remote catalog and
  writes it: afterwards the file is there and \<open>readList\<close> gives the remote catalog.  With
  a local catalog whose fingerprint equals that of the remote one, the file is left as it
  is.  With a local catalog of another fingerprint, the file is written anew and
  \<open>readList\<close> gives the remote catalog.  The remote is taken to answer both requests of a
  run with the same catalog, and that catalog to be well formed as in claim C9.
\<close>

theorem checkUpdates_state_machine:
  "(catalog_file w = None \<and> doSyncRequest net 0 (ustr ''GET'') url = Inr (r, remote) \<and>
    py_value remote \<and> float_free remote \<and> encodable_value L remote \<longrightarrow>
      fst (checkUpdates L url net No_fault w) = None \<and>
      catalog_file (snd (checkUpdates L url net No_fault w)) = Some (dumps (dump_encoder L) remote) \<and>
      readList L (snd (checkUpdates L url net No_fault w)) = Inr remote) \<and>
   (readList L w = Inr local \<and> doSyncRequest net 0 (ustr ''GET'') url = Inr (r, remote) \<and>
    hashJSON L remote = hashJSON L local \<longrightarrow>
      fst (checkUpdates L url net fault w) = None \<and>
      catalog_file (snd (checkUpdates L url net fault w)) = catalog_file w) \<and>
   (readList L w = Inr local \<and> doSyncRequest net 0 (ustr ''GET'') url = Inr (r, remote) \<and>
    doSyncRequest net 1 (ustr ''GET'') url = Inr (r', remote) \<and>
    hashJSON L remote \<noteq> hashJSON L local \<and>
    py_value remote \<and> float_free remote \<and> encodable_value L remote \<longrightarrow>
      fst (checkUpdates L url net No_fault w) = None \<and>
      catalog_file (snd (checkUpdates L url net No_fault w)) = Some (dumps (dump_encoder L) remote) \<and>
      readList L (snd (checkUpdates L url net No_fault w)) = Inr remote)"
proof (intro conjI impI; elim conjE)
  assume "catalog_file w = None" "doSyncRequest net 0 (ustr ''GET'') url = Inr (r, remote)"
    "py_value remote" "float_free remote" "encodable_value L remote"
  then show "fst (checkUpdates L url net No_fault w) = None"
    "catalog_file (snd (checkUpdates L url net No_fault w)) = Some (dumps (dump_encoder L) remote)"
    "readList L (snd (checkUpdates L url net No_fault w)) = Inr remote"
    by (simp_all add: checkUpdates_def downloadList_saves)
next
  assume "readList L w = Inr local" "doSyncRequest net 0 (ustr ''GET'') url = Inr (r, remote)"
    "hashJSON L remote = hashJSON L local"
  then show "fst (checkUpdates L url net fault w) = None"
    "catalog_file (snd (checkUpdates L url net fault w)) = catalog_file w"
    using readList_present [of L w local] by (simp_all add: checkUpdates_def Let_def)
next
  assume "readList L w = Inr local" "doSyncRequest net 0 (ustr ''GET'') url = Inr (r, remote)"
    "doSyncRequest net 1 (ustr ''GET'') url = Inr (r', remote)"
    "hashJSON L remote \<noteq> hashJSON L local"
    "py_value remote" "float_free remote" "encodable_value L remote"
  then show "fst (checkUpdates L url net No_fault w) = None"
    "catalog_file (snd (checkUpdates L url net No_fault w)) = Some (dumps (dump_encoder L) remote)"
    "readList L (snd (checkUpdates L url net No_fault w)) = Inr remote"
    using readList_present [of L w local]
    by (simp_all add: checkUpdates_def Let_def downloadList_saves)
qed

theorem checkUpdates_state_machine_witness:
  "readList example_lib (snd (checkUpdates example_lib (ustr ''https://list'') (net_remote reordered_a)
      No_fault \<lparr>catalog_file = None, stdout = []\<rparr>)) = Inr reordered_a \<and>
   catalog_file (snd (checkUpdates example_lib (ustr ''https://list'') (net_remote five_catalog)
      No_fault \<lparr>catalog_file = Some five_sites, stdout = []\<rparr>)) = Some five_sites \<and>
   readList example_lib (snd (checkUpdates example_lib (ustr ''https://list'') (net_remote reordered_a)
      No_fault \<lparr>catalog_file = Some five_sites, stdout = []\<rparr>)) = Inr reordered_a"
proof -
  have ok: "py_value reordered_a" "float_free reordered_a" "encodable_value example_lib reordered_a"
    by (simp_all add: reordered_a_def ustr_def encodable_def)
  have fetch: "doSyncRequest (net_remote v) k (ustr ''GET'') (ustr ''https://list'') =
      Inr (remote_page v, v)" for v k
    by (simp add: doSyncRequest_def net_remote_def remote_page_def)
  have differ: "hashJSON example_lib reordered_a \<noteq> hashJSON example_lib five_catalog"
    by (simp add: hashJSON_def example_lib_def reordered_a_def five_catalog_def dumps_eval)
  show ?thesis
    using ok fetch differ readList_five_sites
      checkUpdates_state_machine [where w = "\<lparr>catalog_file = None, stdout = []\<rparr>"
        and net = "net_remote reordered_a" and url = "ustr ''https://list''"
        and r = "remote_page reordered_a" and remote = reordered_a and L = example_lib]
      checkUpdates_state_machine [where w = "\<lparr>catalog_file = Some five_sites, stdout = []\<rparr>"
        and net = "net_remote five_catalog" and url = "ustr ''https://list''"
        and r = "remote_page five_catalog" and remote = five_catalog and L = example_lib
        and local = five_catalog and fault = No_fault]
      checkUpdates_state_machine [where w = "\<lparr>catalog_file = Some five_sites, stdout = []\<rparr>"
        and net = "net_remote reordered_a" and url = "ustr ''https://list''"
        and r = "remote_page reordered_a" and r' = "remote_page reordered_a"
        and remote = reordered_a and L = example_lib and local = five_catalog]
    by simp
qed

end
